theory Spec2Isabelle
  imports Complex_Main "HOL-Library.Word" "HOL-Library.AList"
begin

section \<open>JavaScript strings\<close>

text \<open>
  A JavaScript string is a sequence of 16-bit code units; \<open>s.length\<close> counts code
  units and \<open>s[i]\<close> is the one-unit string at index \<open>i\<close>. The characters of the
  protected class of \<open>isNonTranslatable\<close> (the dashes, the euro, pound and yen signs, the
  Unicode spaces) lie beyond one byte, so code units are \<open>16 word\<close>.
\<close>

type_synonym jsstring = "16 word list"

text \<open>An ASCII literal, as code units.\<close>

definition str :: "string \<Rightarrow> jsstring" where
  "str s = map of_char s"

text \<open>
  The class \<open>\s\<close> of a regular expression, which is also the set
  \<open>String.prototype.trim\<close> strips (ECMAScript WhiteSpace and LineTerminator): TAB, LF,
  VT, FF, CR, SPACE, NBSP, U+1680, U+2000..U+200A, U+2028, U+2029, U+202F, U+205F, U+3000,
  U+FEFF.
\<close>

definition isWhiteSpace :: "16 word \<Rightarrow> bool" where
  "isWhiteSpace c =
     (c = 0x09 \<or> c = 0x0A \<or> c = 0x0B \<or> c = 0x0C \<or> c = 0x0D \<or> c = 0x20 \<or> c = 0xA0 \<or>
      c = 0x1680 \<or> (0x2000 \<le> c \<and> c \<le> 0x200A) \<or> c = 0x2028 \<or> c = 0x2029 \<or>
      c = 0x202F \<or> c = 0x205F \<or> c = 0x3000 \<or> c = 0xFEFF)"

text \<open>The class \<open>\d\<close>: the digits 0 to 9.\<close>

definition isDigit :: "16 word \<Rightarrow> bool" where
  "isDigit c = (0x30 \<le> c \<and> c \<le> 0x39)"

definition trimStart :: "jsstring \<Rightarrow> jsstring" where
  "trimStart s = dropWhile isWhiteSpace s"

definition trimEnd :: "jsstring \<Rightarrow> jsstring" where
  "trimEnd s = rev (dropWhile isWhiteSpace (rev s))"

text \<open>\<open>String.prototype.trim\<close>.\<close>

definition trim :: "jsstring \<Rightarrow> jsstring" where
  "trim s = trimEnd (trimStart s)"

text \<open>
  \<open>String.prototype.slice(a, b)\<close>: a negative index counts from the end, both are
  clamped to the string, and the result is empty when the end is not after the start.
\<close>

definition slice :: "jsstring \<Rightarrow> int \<Rightarrow> int \<Rightarrow> jsstring" where
  "slice s a b =
     (let len = int (length s);
          from = (if a < 0 then max (len + a) 0 else min a len);
          to = (if b < 0 then max (len + b) 0 else min b len)
      in take (nat (to - from)) (drop (nat from) s))"

text \<open>\<open>Array.prototype.join\<close> on strings.\<close>

fun join :: "jsstring \<Rightarrow> jsstring list \<Rightarrow> jsstring" where
  "join sep [] = []"
| "join sep [x] = x"
| "join sep (x # y # ys) = x @ sep @ join sep (y # ys)"

section \<open>utils/text.ts\<close>

text \<open>
  \<open>original.match(/^\s+/)\<close>: the match is anchored at index 0 and \<open>\s+\<close> is greedy,
  so it is the longest run of white space at the start; \<open>None\<close> is JavaScript's
  \<open>null\<close> (no match: the run is empty).
\<close>

definition matchLeadingWs :: "jsstring \<Rightarrow> jsstring option" where
  "matchLeadingWs s =
     (let m = takeWhile isWhiteSpace s in if m = [] then None else Some m)"

text \<open>
  \<open>original.match(/\s+$/)\<close>: the search tries each start index from the left; at an
  index the greedy \<open>\s+\<close> must run to the end of the input, so the first index that
  matches is the first one from which the rest is non-empty and all white space.
\<close>

fun matchTrailingWs :: "jsstring \<Rightarrow> jsstring option" where
  "matchTrailingWs [] = None"
| "matchTrailingWs (c # cs) =
     (if list_all isWhiteSpace (c # cs) then Some (c # cs) else matchTrailingWs cs)"

definition preserveWhitespace :: "jsstring \<Rightarrow> jsstring \<Rightarrow> jsstring" where
  "preserveWhitespace original translated =
     (let pre = (case matchLeadingWs original of Some m \<Rightarrow> m | None \<Rightarrow> []);
          suf = (case matchTrailingWs original of Some m \<Rightarrow> m | None \<Rightarrow> [])
      in pre @ trim translated @ suf)"

text \<open>
  The character class of the third test of \<open>isNonTranslatable\<close>: white space, digits
  and \<open>. , % + - (en dash) (em dash) ( ) [ ] { } < > : ; ! ? / \ | @ # ^ & * = ~\<close>, the
  backtick, both quotes, and the euro, dollar, pound and yen signs.
\<close>

definition isProtectedChar :: "16 word \<Rightarrow> bool" where
  "isProtectedChar c =
     (isWhiteSpace c \<or> isDigit c \<or>
      c \<in> set [0x2E, 0x2C, 0x25, 0x2B, 0x2D, 0x2013, 0x2014, 0x28, 0x29, 0x5B, 0x5D, 0x7B,
                0x7D, 0x3C, 0x3E, 0x3A, 0x3B, 0x21, 0x3F, 0x2F, 0x5C, 0x7C, 0x40, 0x23, 0x5E,
                0x26, 0x2A, 0x3D, 0x7E, 0x60, 0x27, 0x22, 0x20AC, 0x24, 0xA3, 0xA5])"

definition isNonTranslatable :: "jsstring \<Rightarrow> bool" where
  "isNonTranslatable text =
     (if text = [] then True
      else if list_all isWhiteSpace text then True
      else if list_all isProtectedChar text then True
      else False)"

section \<open>utils/types.ts\<close>

text \<open>
  Field names carry a prefix where several interfaces of the source share one
  (\<open>text\<close>, \<open>font\<close>, \<open>index\<close>, \<open>start\<close>, \<open>length\<close>, \<open>runs\<close>,
  \<open>paragraphId\<close>) or where the name is taken in HOL (\<open>id\<close>, \<open>size\<close>, \<open>name\<close>).
  A \<open>number\<close> that counts characters or indexes a list is an \<open>int\<close>; a font size
  or indent level is a \<open>rat\<close>.
\<close>

datatype Scope = Current | All

datatype Mode = Apply | Preview

record Settings =
  apiKey :: jsstring
  fromLang :: jsstring
  toLang :: jsstring
  scope :: Scope
  mode :: Mode
  keepLineBreaks :: bool
  fitToLength :: bool
  fitStrength :: rat
  glossary :: "(jsstring \<times> jsstring) list"
  ignoreRegex :: jsstring
  applyUnderline :: bool

record FontSnapshot =
  allCaps :: bool
  bold :: bool
  color :: jsstring
  doubleStrikethrough :: bool
  italic :: bool
  fontName :: jsstring
  fontSize :: rat
  smallCaps :: bool
  strikethrough :: bool
  subscript :: bool
  superscript :: bool
  underline :: jsstring

record Run =
  run_text :: jsstring
  run_font :: FontSnapshot

record ParagraphFormatSnapshot =
  horizontalAlignment :: "jsstring option"
  indentLevel :: "rat option"
  bulletVisible :: "bool option"
  bulletType :: "jsstring option option"
  bulletStyle :: "jsstring option option"

record Paragraph =
  p_id :: jsstring
  originalCharCount :: int
  p_runs :: "Run list"
  paragraphFormat :: "ParagraphFormatSnapshot option"

text \<open>The type \<open>{ index: number; text: string }\<close> of a request's and a result's runs.\<close>

record IndexedText =
  r_index :: int
  r_text :: jsstring

record TranslationResult =
  res_paragraphId :: jsstring
  translatedRuns :: "IndexedText list"

section \<open>JavaScript Map\<close>

text \<open>
  A \<open>Map\<close> keeps its entries in insertion order; \<open>set\<close> on a key it holds replaces
  the value in place, \<open>get\<close> on a key it lacks is \<open>undefined\<close>, \<open>size\<close> counts
  the entries. \<open>new Map(entries)\<close> sets the entries one after the other, so a later entry
  with the same key wins.
\<close>

type_synonym ('k, 'v) jsmap = "('k \<times> 'v) list"

definition mapSet :: "'k \<Rightarrow> 'v \<Rightarrow> ('k, 'v) jsmap \<Rightarrow> ('k, 'v) jsmap" where
  "mapSet k v m = AList.update k v m"

definition mapGet :: "('k, 'v) jsmap \<Rightarrow> 'k \<Rightarrow> 'v option" where
  "mapGet m k = map_of m k"

definition mapSize :: "('k, 'v) jsmap \<Rightarrow> nat" where
  "mapSize m = length m"

definition newMap :: "('k \<times> 'v) list \<Rightarrow> ('k, 'v) jsmap" where
  "newMap entries = foldl (\<lambda>m (k, v). mapSet k v m) [] entries"

section \<open>services/formatting.ts\<close>

text \<open>
  The font of a text range as the host returns it after \<open>load\<close> and \<open>sync\<close>
  (\<open>PowerPoint.ShapeFont\<close>): a property is \<open>null\<close> when the range mixes several
  values, and may be \<open>undefined\<close> on a host that lacks it; both are \<open>None\<close>.
\<close>

record RawFont =
  raw_allCaps :: "bool option"
  raw_bold :: "bool option"
  raw_color :: "jsstring option"
  raw_doubleStrikethrough :: "bool option"
  raw_italic :: "bool option"
  raw_name :: "jsstring option"
  raw_size :: "rat option"
  raw_smallCaps :: "bool option"
  raw_strikethrough :: "bool option"
  raw_subscript :: "bool option"
  raw_superscript :: "bool option"
  raw_underline :: "jsstring option"

text \<open>
  The host, as the extraction reads it: \<open>probe start length\<close> is the font of
  \<open>fullRange.getSubstring(start, length)\<close> once loaded. Any function is a possible host.
\<close>

type_synonym probe = "nat \<Rightarrow> nat \<Rightarrow> RawFont"

definition boolToString :: "bool \<Rightarrow> jsstring" where
  "boolToString b = (if b then str ''true'' else str ''false'')"

text \<open>
  \<open>fontKey\<close> joins the twelve fields with a bar. The text of a \<open>number\<close>
  (ECMAScript's Number::toString) is a host built-in, taken as the parameter
  \<open>numberToString\<close>.
\<close>

definition fontKey :: "(rat \<Rightarrow> jsstring) \<Rightarrow> FontSnapshot \<Rightarrow> jsstring" where
  "fontKey numberToString f =
     join (str ''|'')
       [boolToString (allCaps f), boolToString (bold f), color f,
        boolToString (doubleStrikethrough f), boolToString (italic f), fontName f,
        numberToString (fontSize f), boolToString (smallCaps f),
        boolToString (strikethrough f), boolToString (subscript f),
        boolToString (superscript f), underline f]"

text \<open>\<open>x ?? d\<close>: the default where the value is \<open>null\<close> or \<open>undefined\<close>.\<close>

definition orElse :: "'a option \<Rightarrow> 'a \<Rightarrow> 'a" where
  "orElse x d = (case x of None \<Rightarrow> d | Some v \<Rightarrow> v)"

definition safeFontSnapshot :: "RawFont \<Rightarrow> FontSnapshot" where
  "safeFontSnapshot font =
     \<lparr> allCaps = orElse (raw_allCaps font) False,
       bold = orElse (raw_bold font) False,
       color = orElse (raw_color font) (str ''#FFFFFF''),
       doubleStrikethrough = orElse (raw_doubleStrikethrough font) False,
       italic = orElse (raw_italic font) False,
       fontName = orElse (raw_name font) [],
       fontSize = orElse (raw_size font) 12,
       smallCaps = orElse (raw_smallCaps font) False,
       strikethrough = orElse (raw_strikethrough font) False,
       subscript = orElse (raw_subscript font) False,
       superscript = orElse (raw_superscript font) False,
       underline = orElse (raw_underline font) (str ''None'') \<rparr>"

definition defaultFontSnapshot :: FontSnapshot where
  "defaultFontSnapshot =
     \<lparr> allCaps = False, bold = False, color = str ''#FFFFFF'', doubleStrikethrough = False,
       italic = False, fontName = [], fontSize = 12, smallCaps = False,
       strikethrough = False, subscript = False, superscript = False,
       underline = str ''None'' \<rparr>"

subsection \<open>extractRunsByCharScan\<close>

text \<open>
  The state of the merging loop: the runs pushed so far, \<open>curFont\<close> (\<open>null\<close> before
  the first character) and \<open>curText\<close>.
\<close>

record ScanState =
  sc_runs :: "Run list"
  curFont :: "FontSnapshot option"
  curText :: jsstring

text \<open>
  One iteration, at index \<open>i\<close>: \<open>charRanges[i]\<close> is the one-character range at
  \<open>paragraphStart + i\<close>, and \<open>paragraphText[i]\<close> is in range (\<open>i < n\<close>).
\<close>

definition scanStep ::
  "(rat \<Rightarrow> jsstring) \<Rightarrow> probe \<Rightarrow> nat \<Rightarrow> jsstring \<Rightarrow> ScanState \<Rightarrow> nat \<Rightarrow> ScanState" where
  "scanStep numberToString host paragraphStart paragraphText st i =
     (let f = safeFontSnapshot (host (paragraphStart + i) 1) in
      case curFont st of
        None \<Rightarrow> st\<lparr>curFont := Some f, curText := [paragraphText ! i]\<rparr>
      | Some cf \<Rightarrow>
          if fontKey numberToString cf = fontKey numberToString f
          then st\<lparr>curText := curText st @ [paragraphText ! i]\<rparr>
          else \<lparr> sc_runs = sc_runs st @ [\<lparr> run_text = curText st, run_font = cf \<rparr>],
                 curFont = Some f, curText = [paragraphText ! i] \<rparr>)"

definition extractRunsByCharScan ::
  "(rat \<Rightarrow> jsstring) \<Rightarrow> probe \<Rightarrow> nat \<Rightarrow> jsstring \<Rightarrow> Run list" where
  "extractRunsByCharScan numberToString host paragraphStart paragraphText =
     (let n = length paragraphText;
          st = foldl (scanStep numberToString host paragraphStart paragraphText)
                 \<lparr> sc_runs = [], curFont = None, curText = [] \<rparr> [0..<n]
      in case curFont st of
           None \<Rightarrow> sc_runs st
         | Some cf \<Rightarrow> sc_runs st @ [\<lparr> run_text = curText st, run_font = cf \<rparr>])"

subsection \<open>extractRunsByBinarySplit\<close>

record FontSpan =
  span_start :: nat
  span_length :: nat
  span_font :: FontSnapshot

text \<open>\<open>mixed\<close>: some property of the probed font is \<open>null\<close> or \<open>undefined\<close>.\<close>

definition mixed :: "RawFont \<Rightarrow> bool" where
  "mixed raw =
     (raw_allCaps raw = None \<or> raw_bold raw = None \<or> raw_color raw = None \<or>
      raw_doubleStrikethrough raw = None \<or> raw_italic raw = None \<or> raw_name raw = None \<or>
      raw_size raw = None \<or> raw_smallCaps raw = None \<or> raw_strikethrough raw = None \<or>
      raw_subscript raw = None \<or> raw_superscript raw = None \<or> raw_underline raw = None)"

text \<open>
  The inner \<open>split\<close>: the spans it pushes, in the order it pushes them (each recursive
  call is awaited before the next starts).
\<close>

function split :: "probe \<Rightarrow> nat \<Rightarrow> nat \<Rightarrow> FontSpan list" where
  "split host start len =
     (let raw = host start len in
      if \<not> mixed raw \<or> len \<le> 1
      then [\<lparr> span_start = start, span_length = len, span_font = safeFontSnapshot raw \<rparr>]
      else (let mid = len div 2 in
            split host start mid @ split host (start + mid) (len - mid)))"
  by pat_completeness auto
termination
  by (relation "measure (\<lambda>(host, start, len). len)") auto

declare split.simps [simp del]

text \<open>The state of the merging loop over the sorted spans: \<open>out\<close> and \<open>last\<close>.\<close>

record MergeState =
  mg_out :: "Run list"
  mg_last :: "Run option"

definition mergeStep ::
  "(rat \<Rightarrow> jsstring) \<Rightarrow> nat \<Rightarrow> jsstring \<Rightarrow> MergeState \<Rightarrow> FontSpan \<Rightarrow> MergeState" where
  "mergeStep numberToString paragraphStart paragraphText st s =
     (let localStart = int (span_start s) - int paragraphStart;
          piece = slice paragraphText localStart (localStart + int (span_length s)) in
      case mg_last st of
        None \<Rightarrow> st\<lparr>mg_last := Some \<lparr> run_text = piece, run_font = span_font s \<rparr>\<rparr>
      | Some l \<Rightarrow>
          if fontKey numberToString (run_font l) = fontKey numberToString (span_font s)
          then st\<lparr>mg_last := Some (l\<lparr>run_text := run_text l @ piece\<rparr>)\<rparr>
          else \<lparr> mg_out = mg_out st @ [l],
                 mg_last = Some \<lparr> run_text = piece, run_font = span_font s \<rparr> \<rparr>)"

text \<open>
  \<open>spans.sort((a, b) => a.start - b.start)\<close> is a stable sort on \<open>start\<close>, as
  \<open>sort_key\<close> is.
\<close>

definition extractRunsByBinarySplit ::
  "(rat \<Rightarrow> jsstring) \<Rightarrow> probe \<Rightarrow> nat \<Rightarrow> jsstring \<Rightarrow> Run list" where
  "extractRunsByBinarySplit numberToString host paragraphStart paragraphText =
     (let spans = sort_key span_start (split host paragraphStart (length paragraphText));
          st = foldl (mergeStep numberToString paragraphStart paragraphText)
                 \<lparr> mg_out = [], mg_last = None \<rparr> spans
      in case mg_last st of
           None \<Rightarrow> mg_out st
         | Some l \<Rightarrow> mg_out st @ [l])"

definition MAX_CHAR_SCAN :: nat where
  "MAX_CHAR_SCAN = 1500"

definition extractRunsByFont ::
  "(rat \<Rightarrow> jsstring) \<Rightarrow> probe \<Rightarrow> nat \<Rightarrow> jsstring \<Rightarrow> Run list" where
  "extractRunsByFont numberToString host paragraphStart paragraphText =
     (let n = length paragraphText in
      if n = 0 then [\<lparr> run_text = [], run_font = defaultFontSnapshot \<rparr>]
      else if n \<le> MAX_CHAR_SCAN
      then extractRunsByCharScan numberToString host paragraphStart paragraphText
      else extractRunsByBinarySplit numberToString host paragraphStart paragraphText)"

subsection \<open>applyRunTranslations\<close>

text \<open>
  \<open>typeof t !== "string"\<close> holds exactly when the map has no entry for the index: a
  value of the map is a \<open>string\<close> by its type.
\<close>

definition applyRunTranslations :: "Paragraph \<Rightarrow> IndexedText list \<Rightarrow> Paragraph" where
  "applyRunTranslations paragraph trs =
     (let m = newMap (map (\<lambda>r. (r_index r, r_text r)) trs);
          nextRuns =
            map (\<lambda>(idx, r).
                   if isNonTranslatable (run_text r) then r
                   else (case mapGet m (int idx) of
                           None \<Rightarrow> r
                         | Some t \<Rightarrow> r\<lparr>run_text := preserveWhitespace (run_text r) t\<rparr>))
                (enumerate 0 (p_runs paragraph))
      in paragraph\<lparr>p_runs := nextRuns\<rparr>)"

section \<open>services/openai.ts: the request\<close>

record TranslateBatchItem =
  paragraphId :: jsstring
  originalChars :: int
  runs :: "IndexedText list"

section \<open>services/ppt.ts\<close>

subsection \<open>Targets\<close>

text \<open>
  The tag \<open>kind\<close> of a target is its type here. The \<open>font\<close> of a table run is the
  host's own font object, kept as it was read.
\<close>

record ShapeTextTarget =
  st_shapeId :: jsstring
  st_shapeName :: jsstring
  st_groupPath :: "jsstring list"
  st_shapePath :: "jsstring option"
  paragraphs :: "Paragraph list"

record TableRunSnapshot =
  cell_text :: jsstring
  cell_font :: "RawFont option"

record TableCellTarget =
  tc_shapeId :: jsstring
  tc_shapeName :: jsstring
  tc_groupPath :: "jsstring list"
  tc_shapePath :: "jsstring option"
  tc_row :: int
  tc_col :: int
  tc_paragraphId :: jsstring
  tc_originalChars :: int
  tc_runs :: "TableRunSnapshot list"

record SlideTargets =
  slideIndex :: int
  shapeTextTargets :: "ShapeTextTarget list"
  tableCellTargets :: "TableCellTarget list"

subsection \<open>buildTranslateItems\<close>

text \<open>\<open>xs.map((r, idx) => ({ index: idx, text: r.text }))\<close>, on the texts.\<close>

definition indexRuns :: "jsstring list \<Rightarrow> IndexedText list" where
  "indexRuns texts = map (\<lambda>(idx, t). \<lparr> r_index = int idx, r_text = t \<rparr>) (enumerate 0 texts)"

definition isSkippable :: "IndexedText list \<Rightarrow> bool" where
  "isSkippable rs = list_all (\<lambda>r. isNonTranslatable (r_text r)) rs"

definition paragraphItems :: "Paragraph \<Rightarrow> TranslateBatchItem list" where
  "paragraphItems p =
     (let rs = indexRuns (map run_text (p_runs p)) in
      if isSkippable rs then []
      else [\<lparr> paragraphId = p_id p, originalChars = originalCharCount p, runs = rs \<rparr>])"

definition cellItems :: "TableCellTarget \<Rightarrow> TranslateBatchItem list" where
  "cellItems t =
     (let rs = indexRuns (map cell_text (tc_runs t)) in
      if isSkippable rs then []
      else [\<lparr> paragraphId = tc_paragraphId t, originalChars = tc_originalChars t, runs = rs \<rparr>])"

text \<open>The two loops push in order: every shape's paragraphs first, then the cells.\<close>

definition buildTranslateItems :: "SlideTargets \<Rightarrow> TranslateBatchItem list" where
  "buildTranslateItems targets =
     concat (map (\<lambda>t. concat (map paragraphItems (paragraphs t))) (shapeTextTargets targets))
     @ concat (map cellItems (tableCellTargets targets))"

subsection \<open>chunkByChars\<close>

record ChunkState =
  chunks :: "TranslateBatchItem list list"
  current :: "TranslateBatchItem list"
  sumChars :: int

definition chunkStep :: "int \<Rightarrow> int \<Rightarrow> ChunkState \<Rightarrow> TranslateBatchItem \<Rightarrow> ChunkState" where
  "chunkStep maxChars maxItems st item =
     (let st1 =
            (if int (length (current st)) \<ge> maxItems \<or> sumChars st + originalChars item > maxChars
             then \<lparr> chunks = (if current st \<noteq> [] then chunks st @ [current st] else chunks st),
                    current = [], sumChars = 0 \<rparr>
             else st)
      in st1\<lparr>current := current st1 @ [item], sumChars := sumChars st1 + originalChars item\<rparr>)"

definition chunkByChars :: "TranslateBatchItem list \<Rightarrow> int \<Rightarrow> int \<Rightarrow> TranslateBatchItem list list" where
  "chunkByChars items maxChars maxItems =
     (let st = foldl (chunkStep maxChars maxItems) \<lparr> chunks = [], current = [], sumChars = 0 \<rparr> items
      in if current st \<noteq> [] then chunks st @ [current st] else chunks st)"

text \<open>The default bounds of the parameters \<open>maxChars\<close> and \<open>maxItems\<close>.\<close>

definition defaultMaxChars :: int where
  "defaultMaxChars = 12000"

definition defaultMaxItems :: int where
  "defaultMaxItems = 60"

subsection \<open>composeText\<close>

record ParagraphSpan =
  pspan_start :: nat
  pspan_length :: nat
  pspan_format :: "ParagraphFormatSnapshot option"

record ComposeState =
  fullText :: jsstring
  paragraphSpans :: "ParagraphSpan list"
  runSpans :: "FontSpan list"
  offset :: nat

text \<open>The inner loop over the runs of one paragraph.\<close>

definition composeRun :: "ComposeState \<Rightarrow> Run \<Rightarrow> ComposeState" where
  "composeRun st run =
     st\<lparr> fullText := fullText st @ run_text run,
         runSpans := runSpans st @ [\<lparr> span_start = offset st, span_length = length (run_text run),
                                      span_font = run_font run \<rparr>],
         offset := offset st + length (run_text run) \<rparr>"

text \<open>The body of the outer loop, at index \<open>i\<close> (in range: \<open>i < paragraphs.length\<close>).\<close>

definition composeParagraph :: "Paragraph list \<Rightarrow> Settings \<Rightarrow> ComposeState \<Rightarrow> nat \<Rightarrow> ComposeState" where
  "composeParagraph ps settings st i =
     (let p = ps ! i;
          pStart = offset st;
          st1 = foldl composeRun st (p_runs p);
          pLen = offset st1 - pStart;
          st2 = st1\<lparr>paragraphSpans := paragraphSpans st1 @
                  [\<lparr> pspan_start = pStart, pspan_length = pLen, pspan_format = paragraphFormat p \<rparr>]\<rparr>
      in if keepLineBreaks settings \<and> int i < int (length ps) - 1
         then st2\<lparr>fullText := fullText st2 @ [0x0A], offset := offset st2 + 1\<rparr>
         else if \<not> keepLineBreaks settings \<and> int i < int (length ps) - 1
         then st2\<lparr>fullText := fullText st2 @ [0x20], offset := offset st2 + 1\<rparr>
         else st2)"

text \<open>The result is the state without its \<open>offset\<close>.\<close>

definition composeText :: "Paragraph list \<Rightarrow> Settings \<Rightarrow> ComposeState" where
  "composeText ps settings =
     foldl (composeParagraph ps settings)
       \<lparr> fullText = [], paragraphSpans = [], runSpans = [], offset = 0 \<rparr> [0..<length ps]"

section \<open>Notions the statements use\<close>

text \<open>The text of a paragraph: its runs' texts, in order.\<close>

definition paragraphText :: "Paragraph \<Rightarrow> jsstring" where
  "paragraphText p = concat (map run_text (p_runs p))"

text \<open>Runs laid end to end from an offset: each span starts where the one before ends.\<close>

fun layout :: "nat \<Rightarrow> Run list \<Rightarrow> FontSpan list" where
  "layout off [] = []"
| "layout off (r # rs) =
     \<lparr> span_start = off, span_length = length (run_text r), span_font = run_font r \<rparr>
     # layout (off + length (run_text r)) rs"

text \<open>What \<open>chunkByChars\<close> guarantees of a chunk, and the invariant of its loop.\<close>

definition chunkOk :: "int \<Rightarrow> int \<Rightarrow> TranslateBatchItem list \<Rightarrow> bool" where
  "chunkOk maxChars maxItems c =
     (c \<noteq> [] \<and> int (length c) \<le> maxItems \<and>
      (length c = 1 \<or> sum_list (map originalChars c) \<le> maxChars))"

definition chunkInv :: "int \<Rightarrow> int \<Rightarrow> TranslateBatchItem list \<Rightarrow> ChunkState \<Rightarrow> bool" where
  "chunkInv maxChars maxItems seen st =
     (concat (chunks st) @ current st = seen \<and>
      sumChars st = sum_list (map originalChars (current st)) \<and>
      int (length (current st)) \<le> maxItems \<and>
      (length (current st) \<le> 1 \<or> sumChars st \<le> maxChars) \<and>
      list_all (chunkOk maxChars maxItems) (chunks st))"

text \<open>
  What the two merging loops have read so far: the texts of the runs pushed and of the run
  in progress. \<open>pieceOf\<close> is the \<open>piece\<close> the binary split cuts for a span.
\<close>

definition scanFlat :: "ScanState \<Rightarrow> jsstring" where
  "scanFlat st = concat (map run_text (sc_runs st)) @ curText st"

definition pieceOf :: "nat \<Rightarrow> jsstring \<Rightarrow> FontSpan \<Rightarrow> jsstring" where
  "pieceOf pStart para s =
     slice para (int (span_start s) - int pStart) (int (span_start s) - int pStart + int (span_length s))"

definition mergeFlat :: "MergeState \<Rightarrow> jsstring" where
  "mergeFlat st =
     concat (map run_text (mg_out st)) @ (case mg_last st of None \<Rightarrow> [] | Some l \<Rightarrow> run_text l)"

text \<open>
  The joiner of \<open>composeText\<close>, and its tables in closed form: paragraphs laid out from
  an offset with one joiner between them, and their runs laid end to end.
\<close>

definition joiner :: "Settings \<Rightarrow> 16 word" where
  "joiner settings = (if keepLineBreaks settings then 0x0A else 0x20)"

fun paragraphLayout :: "nat \<Rightarrow> Paragraph list \<Rightarrow> ParagraphSpan list" where
  "paragraphLayout off [] = []"
| "paragraphLayout off (p # ps) =
     \<lparr> pspan_start = off, pspan_length = length (paragraphText p),
       pspan_format = paragraphFormat p \<rparr>
     # paragraphLayout (off + length (paragraphText p) + 1) ps"

fun runLayout :: "nat \<Rightarrow> Paragraph list \<Rightarrow> FontSpan list" where
  "runLayout off [] = []"
| "runLayout off (p # ps) =
     layout off (p_runs p) @ runLayout (off + length (paragraphText p) + 1) ps"

definition textWithSeps :: "16 word \<Rightarrow> Paragraph list \<Rightarrow> jsstring" where
  "textWithSeps sep ps = concat (map (\<lambda>p. paragraphText p @ [sep]) ps)"

subsection \<open>translateKey\<close>

text \<open>
  \<open>JSON.stringify\<close> of an array of strings: the quoted strings between brackets, with
  commas. A string is quoted as ECMAScript's QuoteJSONString does: backspace, tab, line feed,
  form feed, carriage return, the double quote and the backslash have two-character escapes;
  any other code unit below U+0020 and any surrogate without its partner are written
  \<open>\uXXXX\<close> in lower-case hexadecimal; a surrogate pair and everything else is kept.
\<close>

definition hexDigit :: "nat \<Rightarrow> 16 word" where
  "hexDigit d = (if d < 10 then 0x30 + of_nat d else 0x57 + of_nat d)"

definition unicodeEscape :: "16 word \<Rightarrow> jsstring" where
  "unicodeEscape c =
     (let n = unat c in
      [0x5C, 0x75, hexDigit (n div 4096), hexDigit (n div 256 mod 16),
       hexDigit (n div 16 mod 16), hexDigit (n mod 16)])"

definition isHighSurrogate :: "16 word \<Rightarrow> bool" where
  "isHighSurrogate c = (0xD800 \<le> c \<and> c \<le> 0xDBFF)"

definition isLowSurrogate :: "16 word \<Rightarrow> bool" where
  "isLowSurrogate c = (0xDC00 \<le> c \<and> c \<le> 0xDFFF)"

fun quoteChars :: "jsstring \<Rightarrow> jsstring" where
  "quoteChars [] = []"
| "quoteChars (c # cs) =
     (if c = 0x08 then [0x5C, 0x62] @ quoteChars cs
      else if c = 0x09 then [0x5C, 0x74] @ quoteChars cs
      else if c = 0x0A then [0x5C, 0x6E] @ quoteChars cs
      else if c = 0x0C then [0x5C, 0x66] @ quoteChars cs
      else if c = 0x0D then [0x5C, 0x72] @ quoteChars cs
      else if c = 0x22 then [0x5C, 0x22] @ quoteChars cs
      else if c = 0x5C then [0x5C, 0x5C] @ quoteChars cs
      else if c < 0x20 then unicodeEscape c @ quoteChars cs
      else if isHighSurrogate c then
        (case cs of
           [] \<Rightarrow> unicodeEscape c
         | d # ds \<Rightarrow>
             if isLowSurrogate d then c # d # quoteChars ds
             else unicodeEscape c @ quoteChars cs)
      else if isLowSurrogate c then unicodeEscape c @ quoteChars cs
      else c # quoteChars cs)"

definition quoteJSONString :: "jsstring \<Rightarrow> jsstring" where
  "quoteJSONString s = [0x22] @ quoteChars s @ [0x22]"

definition stringifyStrings :: "jsstring list \<Rightarrow> jsstring" where
  "stringifyStrings xs = [0x5B] @ join [0x2C] (map quoteJSONString xs) @ [0x5D]"

definition translateKey :: "TranslateBatchItem \<Rightarrow> jsstring" where
  "translateKey item = stringifyStrings (map r_text (runs item))"

subsection \<open>translateBatch (services/openai.ts)\<close>

text \<open>
  The errors \<open>translateBatch\<close> throws, by the place that throws: no API key
  ("Aucune cle API."), a response that is not \<open>ok\<close> (with the message of its body, if it
  has one), an empty output text, an output text \<open>JSON.parse\<close> rejects, and a parsed
  value without an \<open>items\<close> array.
\<close>

datatype OpenAIError =
  NoApiKey
  | HttpError "jsstring option"
  | EmptyOutput
  | UnparsableOutput
  | UnexpectedOutput

text \<open>
  What the provider sent back, as far as \<open>translateBatch\<close> tells responses apart. The
  items of a parsed response are taken as they are typed (\<open>parsed.items as
  TranslationResult[]\<close>, unchecked in the source).
\<close>

datatype Payload =
  NotOk "jsstring option"
  | NoText
  | NotJSON
  | NoItemsArray
  | Items "TranslationResult list"

text \<open>The part of \<open>translateBatch\<close> before \<open>fetch\<close>.\<close>

datatype BatchStart = Threw OpenAIError | Returned "TranslationResult list" | Fetching

definition translateBatchStart :: "Settings \<Rightarrow> TranslateBatchItem list \<Rightarrow> BatchStart" where
  "translateBatchStart settings items =
     (if apiKey settings = [] then Threw NoApiKey
      else if items = [] then Returned []
      else Fetching)"

text \<open>The part after \<open>fetch\<close>: \<open>Inl\<close> is the error thrown.\<close>

definition translateBatchFinish :: "Payload \<Rightarrow> OpenAIError + TranslationResult list" where
  "translateBatchFinish payload =
     (case payload of
        NotOk msg \<Rightarrow> Inl (HttpError msg)
      | NoText \<Rightarrow> Inl EmptyOutput
      | NotJSON \<Rightarrow> Inl UnparsableOutput
      | NoItemsArray \<Rightarrow> Inl UnexpectedOutput
      | Items rs \<Rightarrow> Inr rs)"

subsection \<open>translateAndMaybeApplySlide: before translateChunks\<close>

type_synonym translationCache = "(jsstring, IndexedText list) jsmap"

record PrepState =
  pending :: "TranslateBatchItem list"
  keyToIds :: "(jsstring, jsstring list) jsmap"
  idToKey :: "(jsstring, jsstring) jsmap"
  allResults :: "TranslationResult list"

text \<open>
  The body of the first loop. \<open>if (cached)\<close> and \<open>if (ids)\<close> test an object and an
  array, which are truthy whenever the map has the key.
\<close>

definition prepStep :: "translationCache \<Rightarrow> PrepState \<Rightarrow> TranslateBatchItem \<Rightarrow> PrepState" where
  "prepStep cache st item =
     (let key = translateKey item in
      case mapGet cache key of
        Some cached \<Rightarrow>
          st\<lparr>allResults := allResults st @
                [\<lparr> res_paragraphId = paragraphId item, translatedRuns = cached \<rparr>]\<rparr>
      | None \<Rightarrow>
          (case mapGet (keyToIds st) key of
             Some ids \<Rightarrow> st\<lparr>keyToIds := mapSet key (ids @ [paragraphId item]) (keyToIds st)\<rparr>
           | None \<Rightarrow>
               st\<lparr> keyToIds := mapSet key [paragraphId item] (keyToIds st),
                   idToKey := mapSet (paragraphId item) key (idToKey st),
                   pending := pending st @ [item] \<rparr>))"

definition prepare :: "translationCache \<Rightarrow> TranslateBatchItem list \<Rightarrow> PrepState" where
  "prepare cache items =
     foldl (prepStep cache) \<lparr> pending = [], keyToIds = [], idToKey = [], allResults = [] \<rparr> items"

subsection \<open>translateAndMaybeApplySlide: after translateChunks\<close>

text \<open>
  The body of the loop over \<open>translated\<close>, on the cache and \<open>allResults\<close>.
  \<open>if (!key) continue\<close> skips an id the map lacks, and an empty key.
\<close>

definition mergeResult ::
  "PrepState \<Rightarrow> translationCache \<times> TranslationResult list \<Rightarrow> TranslationResult
     \<Rightarrow> translationCache \<times> TranslationResult list" where
  "mergeResult st acc r =
     (case mapGet (idToKey st) (res_paragraphId r) of
        None \<Rightarrow> acc
      | Some key \<Rightarrow>
          if key = [] then acc
          else (mapSet key (translatedRuns r) (fst acc),
                snd acc @ map (\<lambda>i. \<lparr> res_paragraphId = i, translatedRuns = translatedRuns r \<rparr>)
                            (orElse (mapGet (keyToIds st) key) [])))"

definition mergeTranslated ::
  "PrepState \<Rightarrow> translationCache \<Rightarrow> TranslationResult list
     \<Rightarrow> translationCache \<times> TranslationResult list" where
  "mergeTranslated st cache translated = foldl (mergeResult st) (cache, allResults st) translated"

text \<open>\<open>for (const r of allResults) map.set(r.paragraphId, r)\<close>.\<close>

definition resultMap :: "TranslationResult list \<Rightarrow> (jsstring, TranslationResult) jsmap" where
  "resultMap rs = foldl (\<lambda>m r. mapSet (res_paragraphId r) r m) [] rs"

text \<open>
  The preview: the loops stop once three texts are kept, so a paragraph after that changes
  nothing.
\<close>

definition previewStep ::
  "(jsstring, TranslationResult) jsmap \<Rightarrow> jsstring list \<Rightarrow> Paragraph \<Rightarrow> jsstring list" where
  "previewStep m parts p =
     (if length parts \<ge> 3 then parts
      else case mapGet m (p_id p) of
             None \<Rightarrow> parts
           | Some tr \<Rightarrow>
               (let applied = applyRunTranslations p (translatedRuns tr);
                    t = concat (map run_text (p_runs applied))
                in if trim t \<noteq> [] then parts @ [t] else parts))"

definition buildPreview :: "SlideTargets \<Rightarrow> (jsstring, TranslationResult) jsmap \<Rightarrow> jsstring" where
  "buildPreview targets m =
     join [0x0A, 0x0A]
       (foldl (previewStep m) [] (concat (map paragraphs (shapeTextTargets targets))))"

subsection \<open>applySlideTranslations\<close>

definition shapeKey :: "jsstring \<Rightarrow> jsstring list \<Rightarrow> jsstring" where
  "shapeKey shapeId groupPath =
     (if groupPath \<noteq> [] then join (str ''::'') groupPath @ str ''::'' @ shapeId else shapeId)"

text \<open>
  What the host is asked to write: the new text of a shape with its two offset tables, or
  the new runs of a table cell.
\<close>

datatype Write =
  TextWrite jsstring ComposeState
  | CellWrite jsstring int int "TableRunSnapshot list"

definition updatedParagraphs ::
  "(jsstring, TranslationResult) jsmap \<Rightarrow> Paragraph list \<Rightarrow> Paragraph list" where
  "updatedParagraphs m ps =
     map (\<lambda>p. case mapGet m (p_id p) of
                 Some r \<Rightarrow> applyRunTranslations p (translatedRuns r)
               | None \<Rightarrow> p) ps"

definition newTextRuns :: "TableCellTarget \<Rightarrow> IndexedText list \<Rightarrow> TableRunSnapshot list" where
  "newTextRuns tc trs =
     (let runMap = newMap (map (\<lambda>r. (r_index r, r_text r)) trs) in
      map (\<lambda>(idx, r). \<lparr> cell_text = orElse (mapGet runMap (int idx)) (cell_text r),
                        cell_font = cell_font r \<rparr>)
          (enumerate 0 (tc_runs tc)))"

text \<open>
  \<open>hasText key\<close> is the host's answer for the shape at write-back: it has a text frame
  with text. A shape without one is passed over.
\<close>

definition shapeWrites ::
  "(jsstring \<Rightarrow> bool) \<Rightarrow> Settings \<Rightarrow> (jsstring, TranslationResult) jsmap \<Rightarrow> ShapeTextTarget
     \<Rightarrow> Write list" where
  "shapeWrites hasText settings m st =
     (let key = shapeKey (st_shapeId st) (st_groupPath st) in
      if \<not> hasText key then []
      else [TextWrite key (composeText (updatedParagraphs m (paragraphs st)) settings)])"

definition cellWrites :: "(jsstring, TranslationResult) jsmap \<Rightarrow> TableCellTarget \<Rightarrow> Write list" where
  "cellWrites m tc =
     (case mapGet m (tc_paragraphId tc) of
        None \<Rightarrow> []
      | Some tr \<Rightarrow>
          [CellWrite (shapeKey (tc_shapeId tc) (tc_groupPath tc)) (tc_row tc) (tc_col tc)
             (newTextRuns tc (translatedRuns tr))])"

definition applySlideTranslations ::
  "(jsstring \<Rightarrow> bool) \<Rightarrow> SlideTargets \<Rightarrow> (jsstring, TranslationResult) jsmap \<Rightarrow> Settings
     \<Rightarrow> Write list" where
  "applySlideTranslations hasText targets m settings =
     concat (map (shapeWrites hasText settings m) (shapeTextTargets targets))
     @ concat (map (cellWrites m) (tableCellTargets targets))"


subsection \<open>translateChunks\<close>

text \<open>
  JavaScript runs one piece of code at a time: a worker runs from one \<open>await\<close> to the
  next without interruption, and the abort signal can only change between two such pieces.
  A worker that is suspended awaits the response to the one chunk it claimed, so the pool is
  its \<open>cursor\<close>, the indices of the chunks in flight (one per suspended worker; a worker
  that is not suspended has left its loop) and the \<open>results\<close> pushed so far.
\<close>

record Pool =
  cursor :: nat
  inflight :: "nat list"
  results :: "TranslationResult list"

text \<open>
  A worker at the head of its loop, up to its next \<open>await\<close> of a request in flight or
  its leaving the loop: the new pool, the index of the chunk it sent to the provider (if
  any) and the error it threw (if any). \<open>cursor++\<close> happens before the test against
  \<open>chunks.length\<close>. A \<open>translateBatch\<close> that returns without a request (an empty
  chunk) sends the worker round the loop again.
\<close>

function claimNext ::
  "Settings \<Rightarrow> TranslateBatchItem list list \<Rightarrow> bool \<Rightarrow> Pool
     \<Rightarrow> Pool \<times> nat option \<times> OpenAIError option" where
  "claimNext settings batches ab p =
     (if ab then (p, None, None)
      else (let i = cursor p; p1 = p\<lparr>cursor := i + 1\<rparr> in
            if i \<ge> length batches then (p1, None, None)
            else (case translateBatchStart settings (batches ! i) of
                    Threw e \<Rightarrow> (p1, None, Some e)
                  | Returned rs \<Rightarrow>
                      claimNext settings batches ab (p1\<lparr>results := results p1 @ rs\<rparr>)
                  | Fetching \<Rightarrow> (p1\<lparr>inflight := inflight p1 @ [i]\<rparr>, Some i, None))))"
  by pat_completeness auto
termination
  by (relation "measure (\<lambda>(settings, batches, ab, p). length batches - cursor p)") auto

declare claimNext.simps [simp del]

definition defaultConcurrency :: nat where
  "defaultConcurrency = 3"

text \<open>
  The workers are created one after the other; each runs to its first \<open>await\<close> at once.
  \<open>Promise.all\<close> rejects with the first error thrown.
\<close>

fun startWorkers ::
  "Settings \<Rightarrow> TranslateBatchItem list list \<Rightarrow> bool \<Rightarrow> nat
     \<Rightarrow> Pool \<times> nat list \<times> OpenAIError option \<Rightarrow> Pool \<times> nat list \<times> OpenAIError option" where
  "startWorkers settings batches ab 0 acc = acc"
| "startWorkers settings batches ab (Suc n) (p, sent, thrown) =
     (case claimNext settings batches ab p of
        (p', d, e) \<Rightarrow>
          startWorkers settings batches ab n
            (p', sent @ (case d of None \<Rightarrow> [] | Some i \<Rightarrow> [i]),
             (case thrown of None \<Rightarrow> e | Some x \<Rightarrow> Some x)))"

subsection \<open>translateScope as a machine\<close>

text \<open>
  What reaches the running code from outside, one event at a time: the user's abort, the
  completion of the host interaction that is awaited (\<open>getSlideIndices\<close>,
  \<open>extractSlideTargets\<close>, \<open>applySlideTranslations\<close>), and the provider's payload for
  the chunk of a given index. The host interactions are taken to succeed.
\<close>

datatype Event = AbortEv | HostDone | Response nat Payload

text \<open>
  The labels \<open>onProgress\<close> is called with: "Extraction slide i/n", "Traduction slide
  i/n", "Slide i termine (0)", "Slide i termine", "Annule", "Termine" (accents left out).
\<close>

datatype Label =
  ExtractionSlide int nat
  | TraductionSlide int nat
  | SlideTermineZero int
  | SlideTermine int
  | Annule
  | Termine

text \<open>
  Where \<open>translateScope\<close> is suspended: awaiting the slide indices, the extraction of
  the slide at a position of the index list, the chunks of that slide, or its write-back;
  or it has returned, or thrown.
\<close>

datatype Control =
  Starting
  | Extracting nat
  | Translating nat
  | Applying nat
  | Finished
  | Rejected OpenAIError

text \<open>
  What does not change during a run: the settings, the slide indices the host returns, the
  targets it extracts for a slide index, and which shapes of a slide have text at
  write-back.
\<close>

record Env =
  env_settings :: Settings
  env_indices :: "int list"
  env_extract :: "int \<Rightarrow> SlideTargets"
  env_hasText :: "int \<Rightarrow> jsstring \<Rightarrow> bool"

text \<open>
  The state of a run: the variables of \<open>translateScope\<close> and of the
  \<open>translateAndMaybeApplySlide\<close> in progress, and what the run has done to the outside:
  the calls of \<open>onProgress\<close>, the slide indices whose extraction was started, the chunks
  sent to the provider, and the writes committed to the host.
\<close>

record Config =
  control :: Control
  aborted :: bool
  sessionCache :: translationCache
  translatedTotal :: nat
  previewText :: jsstring
  curTargets :: SlideTargets
  curPrep :: PrepState
  curChunks :: "TranslateBatchItem list list"
  pool :: Pool
  curMap :: "(jsstring, TranslationResult) jsmap"
  progress :: "(nat \<times> nat \<times> Label) list"
  extracted :: "int list"
  requests :: "TranslateBatchItem list list"
  writes :: "Write list"

definition emptyTargets :: SlideTargets where
  "emptyTargets = \<lparr> slideIndex = 0, shapeTextTargets = [], tableCellTargets = [] \<rparr>"

definition initialConfig :: Config where
  "initialConfig =
     \<lparr> control = Starting, aborted = False, sessionCache = [], translatedTotal = 0,
       previewText = [], curTargets = emptyTargets,
       curPrep = \<lparr> pending = [], keyToIds = [], idToKey = [], allResults = [] \<rparr>,
       curChunks = [], pool = \<lparr> cursor = 0, inflight = [], results = [] \<rparr>, curMap = [],
       progress = [], extracted = [], requests = [], writes = [] \<rparr>"

text \<open>
  The head of the loop of \<open>translateScope\<close> at position \<open>k\<close>: it leaves the loop at the
  end of the list or on an abort, reports the last progress and returns; otherwise it
  starts the extraction of the slide.
\<close>

definition loopHead :: "Env \<Rightarrow> nat \<Rightarrow> Config \<Rightarrow> Config" where
  "loopHead env k c =
     (let n = length (env_indices env) in
      if k < n \<and> \<not> aborted c
      then c\<lparr> progress := progress c @
                  [(k, n, ExtractionSlide (env_indices env ! k + 1) n)],
              extracted := extracted c @ [env_indices env ! k],
              control := Extracting k \<rparr>
      else c\<lparr> progress := progress c @ [(n, n, if aborted c then Annule else Termine)],
              control := Finished \<rparr>)"

text \<open>
  \<open>translateAndMaybeApplySlide\<close> has returned \<open>{ translated, preview }\<close> for the slide
  at position \<open>k\<close>.
\<close>

definition finishSlide :: "Env \<Rightarrow> nat \<Rightarrow> Config \<Rightarrow> nat \<Rightarrow> jsstring \<Rightarrow> Config" where
  "finishSlide env k c translated pv =
     loopHead env (k + 1)
       (c\<lparr> translatedTotal := translatedTotal c + translated,
           previewText := (if previewText c = [] \<and> pv \<noteq> [] then pv else previewText c),
           progress := progress c @
             [(k + 1, length (env_indices env), SlideTermine (env_indices env ! k + 1))] \<rparr>)"

text \<open>\<open>translateChunks\<close> has returned \<open>translated\<close>.\<close>

definition afterChunks :: "Env \<Rightarrow> nat \<Rightarrow> Config \<Rightarrow> TranslationResult list \<Rightarrow> Config" where
  "afterChunks env k c translated =
     (case mergeTranslated (curPrep c) (sessionCache c) translated of
        (cache', every) \<Rightarrow>
          (let m = resultMap every;
               c1 = c\<lparr>sessionCache := cache', curMap := m\<rparr>
           in if mode (env_settings env) = Preview
              then finishSlide env k c1 (mapSize m) (buildPreview (curTargets c) m)
              else c1\<lparr>control := Applying k\<rparr>))"

definition targetCount :: "SlideTargets \<Rightarrow> nat" where
  "targetCount targets =
     foldl (\<lambda>a t. a + length (paragraphs t)) 0 (shapeTextTargets targets)
     + length (tableCellTargets targets)"

text \<open>The extraction of the slide at position \<open>k\<close> has returned.\<close>

definition afterExtract :: "Env \<Rightarrow> nat \<Rightarrow> Config \<Rightarrow> Config" where
  "afterExtract env k c =
     (let n = length (env_indices env);
          idx = env_indices env ! k;
          targets = env_extract env idx in
      if targetCount targets = 0
      then loopHead env (k + 1) (c\<lparr>progress := progress c @ [(k + 1, n, SlideTermineZero (idx + 1))]\<rparr>)
      else (let c1 = c\<lparr>progress := progress c @ [(k, n, TraductionSlide (idx + 1) n)]\<rparr>;
                items = buildTranslateItems targets in
            if items = [] then finishSlide env k c1 0 []
            else (let prep = prepare (sessionCache c1) items;
                      batches = chunkByChars (pending prep) defaultMaxChars defaultMaxItems;
                      c2 = c1\<lparr>curTargets := targets, curPrep := prep, curChunks := batches\<rparr> in
                  if batches = [] then afterChunks env k c2 []
                  else (case startWorkers (env_settings env) batches (aborted c2)
                               (min defaultConcurrency (length batches))
                               (\<lparr> cursor = 0, inflight = [], results = [] \<rparr>, [], None) of
                          (p, sent, thrown) \<Rightarrow>
                            (let c3 = c2\<lparr> pool := p,
                                          requests := requests c2 @ map (\<lambda>i. batches ! i) sent \<rparr> in
                             case thrown of
                               Some e \<Rightarrow> c3\<lparr>control := Rejected e\<rparr>
                             | None \<Rightarrow>
                                 if inflight p = [] then afterChunks env k c3 (results p)
                                 else c3\<lparr>control := Translating k\<rparr>)))))"

text \<open>
  The payload for chunk \<open>i\<close> arrives. Its worker pushes the results and goes round its
  loop, or throws; \<open>translateChunks\<close> returns once no worker is suspended, and throws
  with the first error. After \<open>translateScope\<close> has thrown, the workers still suspended
  go on: their requests are made, their results reach nothing.
\<close>

definition onResponse :: "Env \<Rightarrow> Config \<Rightarrow> nat \<Rightarrow> Payload \<Rightarrow> Config" where
  "onResponse env c i payload =
     (if i \<notin> set (inflight (pool c)) then c
      else (let p1 = (pool c)\<lparr>inflight := removeAll i (inflight (pool c))\<rparr> in
            case translateBatchFinish payload of
              Inl e \<Rightarrow>
                (case control c of
                   Translating k \<Rightarrow> c\<lparr>pool := p1, control := Rejected e\<rparr>
                 | _ \<Rightarrow> c\<lparr>pool := p1\<rparr>)
            | Inr rs \<Rightarrow>
                (case claimNext (env_settings env) (curChunks c) (aborted c)
                        (p1\<lparr>results := results p1 @ rs\<rparr>) of
                   (p2, d, thrown) \<Rightarrow>
                     (let c1 = c\<lparr> pool := p2,
                                   requests := requests c @
                                     (case d of None \<Rightarrow> [] | Some j \<Rightarrow> [curChunks c ! j]) \<rparr> in
                      case control c of
                        Translating k \<Rightarrow>
                          (case thrown of
                             Some e \<Rightarrow> c1\<lparr>control := Rejected e\<rparr>
                           | None \<Rightarrow>
                               if inflight p2 = [] then afterChunks env k c1 (results p2)
                               else c1)
                      | _ \<Rightarrow> c1))))"

definition onHostDone :: "Env \<Rightarrow> Config \<Rightarrow> Config" where
  "onHostDone env c =
     (case control c of
        Starting \<Rightarrow> loopHead env 0 c
      | Extracting k \<Rightarrow> afterExtract env k c
      | Applying k \<Rightarrow>
          finishSlide env k
            (c\<lparr>writes := writes c @
                 applySlideTranslations (env_hasText env (slideIndex (curTargets c)))
                   (curTargets c) (curMap c) (env_settings env)\<rparr>)
            (mapSize (curMap c)) []
      | _ \<Rightarrow> c)"

definition step :: "Env \<Rightarrow> Config \<Rightarrow> Event \<Rightarrow> Config" where
  "step env c ev =
     (case ev of
        AbortEv \<Rightarrow> c\<lparr>aborted := True\<rparr>
      | HostDone \<Rightarrow> onHostDone env c
      | Response i payload \<Rightarrow>
          (case control c of
             Translating k \<Rightarrow> onResponse env c i payload
           | Rejected e \<Rightarrow> onResponse env c i payload
           | _ \<Rightarrow> c))"

text \<open>A run of \<open>translateScope\<close> on the events that reach it, in order.\<close>

definition translateScope :: "Env \<Rightarrow> Event list \<Rightarrow> Config" where
  "translateScope env evs = foldl (step env) initialConfig evs"

text \<open>
  The invariant of a run once the signal is aborted: if the run has returned, its last
  progress report is the cancelled one.
\<close>

definition cancelledOk :: "Env \<Rightarrow> Config \<Rightarrow> bool" where
  "cancelledOk env c =
     (aborted c \<and>
      (control c = Finished \<longrightarrow>
         last (progress c) = (length (env_indices env), length (env_indices env), Annule)))"

text \<open>
  What the first loop of \<open>translateAndMaybeApplySlide\<close> has built once it has seen the
  items \<open>seen\<close>: \<open>keyToIds\<close> holds, for every key the cache lacks, the ids of the
  items seen with that key, in order; \<open>pending\<close> holds the first item seen of each such
  key; \<open>idToKey\<close> only maps ids of pending items, to their keys; \<open>allResults\<close>
  holds the cached runs for the items the cache knows.
\<close>

definition prepInv :: "translationCache \<Rightarrow> TranslateBatchItem list \<Rightarrow> PrepState \<Rightarrow> bool" where
  "prepInv cache seen st =
     ((\<forall>k. mapGet (keyToIds st) k =
            (if mapGet cache k = None \<and> (\<exists>x \<in> set seen. translateKey x = k)
             then Some (map paragraphId (filter (\<lambda>x. translateKey x = k) seen))
             else None)) \<and>
      (\<forall>k. filter (\<lambda>x. translateKey x = k) (pending st) =
            (if mapGet cache k = None then take 1 (filter (\<lambda>x. translateKey x = k) seen)
             else [])) \<and>
      (\<forall>i k. mapGet (idToKey st) i = Some k \<longrightarrow>
            (\<exists>x \<in> set (pending st). paragraphId x = i \<and> translateKey x = k)) \<and>
      allResults st =
        map (\<lambda>x. \<lparr> res_paragraphId = paragraphId x,
                   translatedRuns = the (mapGet cache (translateKey x)) \<rparr>)
            (filter (\<lambda>x. mapGet cache (translateKey x) \<noteq> None) seen))"

text \<open>What the second loop appends to \<open>allResults\<close> for one result.\<close>

definition fanOut :: "PrepState \<Rightarrow> TranslationResult \<Rightarrow> TranslationResult list" where
  "fanOut st r =
     (case mapGet (idToKey st) (res_paragraphId r) of
        None \<Rightarrow> []
      | Some key \<Rightarrow>
          if key = [] then []
          else map (\<lambda>i. \<lparr> res_paragraphId = i, translatedRuns = translatedRuns r \<rparr>)
                 (orElse (mapGet (keyToIds st) key) []))"

text \<open>The runs an id is given, in the order the two loops push them.\<close>

definition runsFor :: "jsstring \<Rightarrow> TranslationResult list \<Rightarrow> IndexedText list list" where
  "runsFor i rs = map translatedRuns (filter (\<lambda>r. res_paragraphId r = i) rs)"





section \<open>Concrete inputs for the witnesses\<close>

definition plainFont :: FontSnapshot where
  "plainFont = defaultFontSnapshot"

definition boldFont :: FontSnapshot where
  "boldFont = defaultFontSnapshot\<lparr>bold := True\<rparr>"

text \<open>A host whose text is bold on the characters before index 2 and plain after.\<close>

definition plainRaw :: RawFont where
  "plainRaw =
     \<lparr> raw_allCaps = Some False, raw_bold = Some False, raw_color = Some (str ''#000000''),
       raw_doubleStrikethrough = Some False, raw_italic = Some False,
       raw_name = Some (str ''Arial''), raw_size = Some 18, raw_smallCaps = Some False,
       raw_strikethrough = Some False, raw_subscript = Some False,
       raw_superscript = Some False, raw_underline = Some (str ''None'') \<rparr>"

definition twoFontHost :: probe where
  "twoFontHost start len =
     (if start + len \<le> 2 then plainRaw\<lparr>raw_bold := Some True\<rparr>
      else if 2 \<le> start then plainRaw
      else plainRaw\<lparr>raw_bold := None\<rparr>)"

definition simplePara :: "jsstring \<Rightarrow> jsstring \<Rightarrow> Paragraph" where
  "simplePara i t =
     \<lparr> p_id = i, originalCharCount = int (length t),
       p_runs = [\<lparr> run_text = t, run_font = plainFont \<rparr>], paragraphFormat = None \<rparr>"

definition twoRunPara :: Paragraph where
  "twoRunPara =
     \<lparr> p_id = str ''s0_shape2_p0'', originalCharCount = 10,
       p_runs = [\<lparr> run_text = str ''Hello '', run_font = boldFont \<rparr>,
                 \<lparr> run_text = str ''42%'', run_font = plainFont \<rparr>,
                 \<lparr> run_text = str '' '', run_font = plainFont \<rparr>],
       paragraphFormat = None \<rparr>"

definition bigItem :: TranslateBatchItem where
  "bigItem =
     \<lparr> paragraphId = str ''s0_shape2_p0'', originalChars = 12001,
       runs = [\<lparr> r_index = 0, r_text = replicate 12001 0x61 \<rparr>] \<rparr>"

definition frenchRuns :: "IndexedText list" where
  "frenchRuns =
     [\<lparr> r_index = 0, r_text = str ''  Bonjour'' \<rparr>, \<lparr> r_index = 1, r_text = str ''43%'' \<rparr>,
      \<lparr> r_index = 0, r_text = str '' Salut  '' \<rparr>]"

definition anySettings :: Settings where
  "anySettings =
     \<lparr> apiKey = str ''sk-test'', fromLang = str ''auto'', toLang = str ''fr'', scope = All,
       mode = Apply, keepLineBreaks = True, fitToLength = False, fitStrength = 60,
       glossary = [], ignoreRegex = [], applyUnderline = True \<rparr>"

text \<open>A deck of two slides, each with one text box of one paragraph.\<close>

definition helloShape :: ShapeTextTarget where
  "helloShape =
     \<lparr> st_shapeId = str ''2'', st_shapeName = str ''Title'', st_groupPath = [],
       st_shapePath = Some (str ''Title''),
       paragraphs = [simplePara (str ''s0_shape2_p0'') (str ''Hello'')] \<rparr>"

definition worldShape :: ShapeTextTarget where
  "worldShape =
     \<lparr> st_shapeId = str ''3'', st_shapeName = str ''Body'', st_groupPath = [],
       st_shapePath = Some (str ''Body''),
       paragraphs = [simplePara (str ''s1_shape3_p0'') (str ''World'')] \<rparr>"

definition twoSlides :: "int \<Rightarrow> SlideTargets" where
  "twoSlides i =
     (if i = 0 then \<lparr> slideIndex = 0, shapeTextTargets = [helloShape], tableCellTargets = [] \<rparr>
      else \<lparr> slideIndex = i, shapeTextTargets = [worldShape], tableCellTargets = [] \<rparr>)"

definition twoSlideEnv :: Env where
  "twoSlideEnv =
     \<lparr> env_settings = anySettings, env_indices = [0, 1], env_extract = twoSlides,
       env_hasText = (\<lambda>i k. True) \<rparr>"

definition bonjour :: "TranslationResult list" where
  "bonjour =
     [\<lparr> res_paragraphId = str ''s0_shape2_p0'',
        translatedRuns = [\<lparr> r_index = 0, r_text = str ''Bonjour'' \<rparr>] \<rparr>]"

definition monde :: "TranslationResult list" where
  "monde =
     [\<lparr> res_paragraphId = str ''s1_shape3_p0'',
        translatedRuns = [\<lparr> r_index = 0, r_text = str ''Monde'' \<rparr>] \<rparr>]"










section \<open>chunkByChars: the partition\<close>

lemma chunkInv_current:
  assumes "chunkInv maxChars maxItems seen st" and "current st \<noteq> []"
  shows "chunkOk maxChars maxItems (current st)"
proof -
  have "length (current st) = 1 \<or> sum_list (map originalChars (current st)) \<le> maxChars"
    using assms by (cases "current st") (auto simp: chunkInv_def)
  then show ?thesis
    using assms by (simp add: chunkInv_def chunkOk_def)
qed

lemma chunkStep_inv:
  assumes "1 \<le> maxItems" and inv: "chunkInv maxChars maxItems seen st"
  shows "chunkInv maxChars maxItems (seen @ [item]) (chunkStep maxChars maxItems st item)"
proof (cases "int (length (current st)) \<ge> maxItems \<or> sumChars st + originalChars item > maxChars")
  case True
  then have eq: "chunkStep maxChars maxItems st item =
      \<lparr> chunks = (if current st \<noteq> [] then chunks st @ [current st] else chunks st),
        current = [item], sumChars = originalChars item \<rparr>"
    by (simp add: chunkStep_def)
  show ?thesis
    unfolding eq using assms chunkInv_current [OF inv]
    by (auto simp: chunkInv_def)
next
  case False
  then have eq: "chunkStep maxChars maxItems st item =
      st\<lparr>current := current st @ [item], sumChars := sumChars st + originalChars item\<rparr>"
    by (simp add: chunkStep_def)
  show ?thesis
    unfolding eq using assms False by (auto simp: chunkInv_def)
qed

lemma chunk_foldl_inv:
  assumes "1 \<le> maxItems"
  shows "chunkInv maxChars maxItems seen st \<Longrightarrow>
    chunkInv maxChars maxItems (seen @ items) (foldl (chunkStep maxChars maxItems) st items)"
proof (induction items arbitrary: st seen)
  case Nil
  then show ?case by simp
next
  case (Cons item items)
  from Cons.IH [OF chunkStep_inv [OF assms Cons.prems, of item]]
  show ?case by simp
qed

lemma chunkByChars_general:
  assumes "1 \<le> maxItems"
  shows "concat (chunkByChars items maxChars maxItems) = items \<and>
    list_all (chunkOk maxChars maxItems) (chunkByChars items maxChars maxItems)"
proof -
  let ?st = "foldl (chunkStep maxChars maxItems) \<lparr> chunks = [], current = [], sumChars = 0 \<rparr> items"
  have "chunkInv maxChars maxItems [] \<lparr> chunks = [], current = [], sumChars = 0 \<rparr>"
    using assms by (simp add: chunkInv_def)
  from chunk_foldl_inv [OF assms this, of items]
  have inv: "chunkInv maxChars maxItems items ?st" by simp
  show ?thesis
    using inv chunkInv_current [OF inv]
    by (auto simp: chunkByChars_def Let_def chunkInv_def)
qed


section \<open>Map lookups, applyRunTranslations and preserveWhitespace\<close>

lemma newMap_foldl:
  "map_of (foldl (\<lambda>m (k, v). mapSet k v m) acc es) = map_of acc ++ map_of (rev es)"
proof (induction es arbitrary: acc)
  case Nil
  then show ?case by simp
next
  case (Cons e es)
  obtain k' v' where e: "e = (k', v')" by (cases e)
  have "map_of (foldl (\<lambda>m (k, v). mapSet k v m) acc (e # es))
      = map_of (mapSet k' v' acc) ++ map_of (rev es)"
    by (simp add: e Cons.IH)
  also have "map_of (mapSet k' v' acc) = map_of acc ++ [k' \<mapsto> v']"
    by (simp add: mapSet_def update_conv')
  finally show ?case
    by (simp add: e map_add_def fun_eq_iff split: option.splits)
qed

lemma map_of_rev_last:
  "map_of (rev es) k =
     (if \<exists>e \<in> set es. fst e = k
      then Some (snd (last (filter (\<lambda>e. fst e = k) es)))
      else None)"
proof (induction es rule: rev_induct)
  case Nil
  then show ?case by simp
next
  case (snoc x xs)
  show ?case
  proof (cases "fst x = k")
    case True
    then show ?thesis by (cases x) auto
  next
    case False
    then show ?thesis using snoc.IH by (cases x) auto
  qed
qed

lemma mapGet_newMap:
  "mapGet (newMap es) k =
     (if \<exists>e \<in> set es. fst e = k
      then Some (snd (last (filter (\<lambda>e. fst e = k) es)))
      else None)"
  by (simp add: mapGet_def newMap_def newMap_foldl map_of_rev_last)

lemma runMap_get:
  "mapGet (newMap (map (\<lambda>r. (r_index r, r_text r)) trs)) k =
     (if \<exists>tr \<in> set trs. r_index tr = k
      then Some (r_text (last (filter (\<lambda>tr. r_index tr = k) trs)))
      else None)"
proof -
  have f: "filter (\<lambda>e. fst e = k) (map (\<lambda>r. (r_index r, r_text r)) trs)
             = map (\<lambda>r. (r_index r, r_text r)) (filter (\<lambda>tr. r_index tr = k) trs)"
    by (simp add: filter_map comp_def)
  show ?thesis
  proof (cases "\<exists>tr \<in> set trs. r_index tr = k")
    case True
    then have ne: "filter (\<lambda>tr. r_index tr = k) trs \<noteq> []"
      by (simp add: filter_empty_conv)
    from True have "\<exists>e \<in> set (map (\<lambda>r. (r_index r, r_text r)) trs). fst e = k"
      by auto
    then have "mapGet (newMap (map (\<lambda>r. (r_index r, r_text r)) trs)) k
        = Some (snd (last (map (\<lambda>r. (r_index r, r_text r)) (filter (\<lambda>tr. r_index tr = k) trs))))"
      unfolding mapGet_newMap f by simp
    also have "\<dots> = Some (r_text (last (filter (\<lambda>tr. r_index tr = k) trs)))"
      using ne by (simp add: last_map)
    finally show ?thesis using True by simp
  next
    case False
    then have "\<not> (\<exists>e \<in> set (map (\<lambda>r. (r_index r, r_text r)) trs). fst e = k)"
      by auto
    then show ?thesis using False unfolding mapGet_newMap by simp
  qed
qed

lemma applyRun_nth:
  assumes "i < length (p_runs p)"
  shows "p_runs (applyRunTranslations p trs) ! i =
     (let r = p_runs p ! i in
      if isNonTranslatable (run_text r) then r
      else if \<exists>tr \<in> set trs. r_index tr = int i
      then r\<lparr>run_text := preserveWhitespace (run_text r)
                 (r_text (last (filter (\<lambda>tr. r_index tr = int i) trs)))\<rparr>
      else r)"
  using assms
  by (simp add: applyRunTranslations_def Let_def nth_enumerate_eq runMap_get)

lemma applyRun_frame:
  "p_id (applyRunTranslations p trs) = p_id p \<and>
   originalCharCount (applyRunTranslations p trs) = originalCharCount p \<and>
   paragraphFormat (applyRunTranslations p trs) = paragraphFormat p \<and>
   length (p_runs (applyRunTranslations p trs)) = length (p_runs p)"
  by (simp add: applyRunTranslations_def Let_def)

lemma matchTrailingWs_eq:
  "matchTrailingWs s =
     (let m = rev (takeWhile isWhiteSpace (rev s)) in if m = [] then None else Some m)"
proof (induction s)
  case Nil
  then show ?case by simp
next
  case (Cons c cs)
  show ?case
  proof (cases "list_all isWhiteSpace (c # cs)")
    case True
    then have "\<forall>x \<in> set (rev cs @ [c]). isWhiteSpace x"
      by (auto simp: list_all_iff)
    then have "takeWhile isWhiteSpace (rev cs @ [c]) = rev cs @ [c]"
      by (rule takeWhile_eq_all_conv [THEN iffD2])
    then have e1: "rev (takeWhile isWhiteSpace (rev (c # cs))) = c # cs"
      by (simp only: rev.simps rev_append rev_rev_ident append.simps)
    from True have e2: "matchTrailingWs (c # cs) = Some (c # cs)"
      by simp
    show ?thesis
      unfolding Let_def e1 e2 by simp
  next
    case False
    have "takeWhile isWhiteSpace (rev cs @ [c]) = takeWhile isWhiteSpace (rev cs)"
    proof (cases "\<forall>x \<in> set (rev cs). isWhiteSpace x")
      case True
      with False have nc: "\<not> isWhiteSpace c" by (simp add: list_all_iff)
      have a: "takeWhile isWhiteSpace (rev cs @ [c]) = rev cs @ takeWhile isWhiteSpace [c]"
        using True by (intro takeWhile_append2) auto
      have b: "takeWhile isWhiteSpace (rev cs) = rev cs"
        using True by (intro takeWhile_eq_all_conv [THEN iffD2])
      show ?thesis
        unfolding a b using nc by simp
    next
      case False
      then obtain x where "x \<in> set (rev cs)" "\<not> isWhiteSpace x" by blast
      then show ?thesis by (rule takeWhile_append1)
    qed
    then have e1: "takeWhile isWhiteSpace (rev (c # cs)) = takeWhile isWhiteSpace (rev cs)"
      by simp
    from False have e2: "matchTrailingWs (c # cs) = matchTrailingWs cs"
      by auto
    show ?thesis
      unfolding e1 e2 by (rule Cons.IH)
  qed
qed

lemma preserveWhitespace_eq:
  "preserveWhitespace original translated =
     takeWhile isWhiteSpace original @ trim translated @ rev (takeWhile isWhiteSpace (rev original))"
  by (simp add: preserveWhitespace_def matchLeadingWs_def matchTrailingWs_eq Let_def)

lemma allWs_nonTranslatable: "list_all isWhiteSpace s \<Longrightarrow> isNonTranslatable s"
  by (simp add: isNonTranslatable_def)


text \<open>The definitions a concrete text is evaluated with.\<close>

lemmas text_eval =
  isNonTranslatable_def isWhiteSpace_def isProtectedChar_def isDigit_def
  preserveWhitespace_def matchLeadingWs_def trim_def trimStart_def trimEnd_def str_def

section \<open>Run extraction: the partition is lossless\<close>

lemma scanStep_flat:
  assumes "curFont st = None \<Longrightarrow> curText st = []"
  shows "scanFlat (scanStep nts host pStart para st i) = scanFlat st @ [para ! i]
    \<and> curFont (scanStep nts host pStart para st i) \<noteq> None"
  using assms by (auto simp: scanStep_def scanFlat_def Let_def split: option.splits)

lemma scan_foldl:
  "k \<le> length para \<Longrightarrow>
   scanFlat (foldl (scanStep nts host pStart para) \<lparr> sc_runs = [], curFont = None, curText = [] \<rparr> [0..<k])
     = take k para
   \<and> (curFont (foldl (scanStep nts host pStart para) \<lparr> sc_runs = [], curFont = None, curText = [] \<rparr> [0..<k]) = None
        \<longrightarrow> curText (foldl (scanStep nts host pStart para) \<lparr> sc_runs = [], curFont = None, curText = [] \<rparr> [0..<k]) = [])"
proof (induction k)
  case 0
  then show ?case by (simp add: scanFlat_def)
next
  case (Suc k)
  let ?st = "foldl (scanStep nts host pStart para) \<lparr> sc_runs = [], curFont = None, curText = [] \<rparr> [0..<k]"
  from Suc have ih: "scanFlat ?st = take k para" "curFont ?st = None \<Longrightarrow> curText ?st = []"
    by simp_all
  from Suc.prems have k: "k < length para" by simp
  have st: "foldl (scanStep nts host pStart para) \<lparr> sc_runs = [], curFont = None, curText = [] \<rparr> [0..<Suc k]
      = scanStep nts host pStart para ?st k"
    by simp
  from scanStep_flat [OF ih(2), of nts host pStart para k]
  show ?case
    unfolding st using ih(1) k by (auto simp: take_Suc_conv_app_nth)
qed

lemma charScan_lossless:
  "concat (map run_text (extractRunsByCharScan nts host pStart para)) = para"
proof -
  let ?st = "foldl (scanStep nts host pStart para) \<lparr> sc_runs = [], curFont = None, curText = [] \<rparr> [0..<length para]"
  from scan_foldl [of "length para" para nts host pStart]
  have a: "scanFlat ?st = para" and b: "curFont ?st = None \<Longrightarrow> curText ?st = []"
    by simp_all
  show ?thesis
  proof (cases "curFont ?st")
    case None
    with a b show ?thesis
      by (simp add: extractRunsByCharScan_def Let_def scanFlat_def)
  next
    case (Some cf)
    with a show ?thesis
      by (simp add: extractRunsByCharScan_def Let_def scanFlat_def)
  qed
qed

lemma slice_nat:
  "a + n \<le> length s \<Longrightarrow> slice s (int a) (int a + int n) = take n (drop a s)"
  by (simp add: slice_def Let_def min_def)

lemma split_pieces:
  "pStart \<le> start \<Longrightarrow> (start - pStart) + len \<le> length para \<Longrightarrow>
   concat (map (pieceOf pStart para) (split host start len)) = take len (drop (start - pStart) para)"
proof (induction host start len rule: split.induct)
  case (1 host start len)
  show ?case
  proof (cases "\<not> mixed (host start len) \<or> len \<le> 1")
    case True
    then have eq: "split host start len =
        [\<lparr> span_start = start, span_length = len, span_font = safeFontSnapshot (host start len) \<rparr>]"
      by (subst split.simps) (simp add: Let_def)
    have "int start - int pStart = int (start - pStart)"
      using "1.prems" by simp
    then show ?thesis
      unfolding eq using "1.prems" slice_nat [of "start - pStart" len para]
      by (simp add: pieceOf_def)
  next
    case False
    let ?mid = "len div 2"
    from False have eq: "split host start len =
        split host start ?mid @ split host (start + ?mid) (len - ?mid)"
      by (subst split.simps) (simp add: Let_def)
    have l: "concat (map (pieceOf pStart para) (split host start ?mid)) = take ?mid (drop (start - pStart) para)"
      using False "1.prems" by (intro "1.IH"(1)) auto
    have r: "concat (map (pieceOf pStart para) (split host (start + ?mid) (len - ?mid)))
        = take (len - ?mid) (drop (start + ?mid - pStart) para)"
      using False "1.prems" by (intro "1.IH"(2)) auto
    have d: "drop (start + ?mid - pStart) para = drop ?mid (drop (start - pStart) para)"
      using "1.prems" by (simp add: add.commute)
    have "take len (drop (start - pStart) para)
        = take (?mid + (len - ?mid)) (drop (start - pStart) para)"
      by simp
    also have "\<dots> = take ?mid (drop (start - pStart) para) @ take (len - ?mid) (drop ?mid (drop (start - pStart) para))"
      by (rule take_add)
    finally show ?thesis
      unfolding eq by (simp add: l r d)
  qed
qed

lemma split_bounds:
  "s \<in> set (split host start len) \<Longrightarrow> start \<le> span_start s \<and> span_start s \<le> start + len"
proof (induction host start len arbitrary: s rule: split.induct)
  case (1 host start len)
  show ?case
  proof (cases "\<not> mixed (host start len) \<or> len \<le> 1")
    case True
    then have eq: "split host start len =
        [\<lparr> span_start = start, span_length = len, span_font = safeFontSnapshot (host start len) \<rparr>]"
      by (subst split.simps) (simp add: Let_def)
    with "1.prems" show ?thesis by auto
  next
    case False
    let ?mid = "len div 2"
    from False have eq: "split host start len =
        split host start ?mid @ split host (start + ?mid) (len - ?mid)"
      by (subst split.simps) (simp add: Let_def)
    from "1.prems" eq consider "s \<in> set (split host start ?mid)"
      | "s \<in> set (split host (start + ?mid) (len - ?mid))"
      by auto
    then show ?thesis
    proof cases
      case 1
      have "len div 2 \<le> len" by simp
      with "1.IH"(1) [OF refl False refl 1] show ?thesis by linarith
    next
      case 2
      have "len div 2 \<le> len" by simp
      with "1.IH"(2) [OF refl False refl 2] show ?thesis by linarith
    qed
  qed
qed

lemma split_sorted: "sorted (map span_start (split host start len))"
proof (induction host start len rule: split.induct)
  case (1 host start len)
  show ?case
  proof (cases "\<not> mixed (host start len) \<or> len \<le> 1")
    case True
    then have eq: "split host start len =
        [\<lparr> span_start = start, span_length = len, span_font = safeFontSnapshot (host start len) \<rparr>]"
      by (subst split.simps) (simp add: Let_def)
    show ?thesis unfolding eq by simp
  next
    case False
    let ?mid = "len div 2"
    from False have eq: "split host start len =
        split host start ?mid @ split host (start + ?mid) (len - ?mid)"
      by (subst split.simps) (simp add: Let_def)
    have l: "sorted (map span_start (split host start ?mid))"
      using False by (intro "1.IH"(1)) auto
    have r: "sorted (map span_start (split host (start + ?mid) (len - ?mid)))"
      using False by (intro "1.IH"(2)) auto
    have cross: "span_start x \<le> span_start y"
      if x: "x \<in> set (split host start ?mid)"
        and y: "y \<in> set (split host (start + ?mid) (len - ?mid))" for x y
    proof -
      from split_bounds [OF x] have "span_start x \<le> start + ?mid" by simp
      moreover from split_bounds [OF y] have "start + ?mid \<le> span_start y" by simp
      ultimately show ?thesis by simp
    qed
    show ?thesis
      unfolding eq using l r cross by (auto simp: sorted_append)
  qed
qed

lemma mergeStep_flat:
  "mergeFlat (mergeStep nts pStart para st s) = mergeFlat st @ pieceOf pStart para s"
  by (auto simp: mergeStep_def mergeFlat_def pieceOf_def Let_def split: option.splits)

lemma merge_foldl:
  "mergeFlat (foldl (mergeStep nts pStart para) st spans)
     = mergeFlat st @ concat (map (pieceOf pStart para) spans)"
  by (induction spans arbitrary: st) (simp_all add: mergeStep_flat)

lemma binarySplit_lossless:
  "concat (map run_text (extractRunsByBinarySplit nts host pStart para)) = para"
proof -
  let ?spans = "split host pStart (length para)"
  have srt: "sort_key span_start ?spans = ?spans"
    using split_sorted by (rule sort_key_id_if_sorted)
  let ?st = "foldl (mergeStep nts pStart para) \<lparr> mg_out = [], mg_last = None \<rparr> ?spans"
  have init: "mergeFlat \<lparr> mg_out = [], mg_last = None \<rparr> = []"
    by (simp add: mergeFlat_def)
  have "mergeFlat ?st = concat (map (pieceOf pStart para) ?spans)"
    unfolding merge_foldl init by simp
  also have "\<dots> = para"
    using split_pieces [of pStart pStart "length para" para host] by simp
  finally have flat: "mergeFlat ?st = para" .
  have "concat (map run_text (extractRunsByBinarySplit nts host pStart para)) = mergeFlat ?st"
    by (simp add: extractRunsByBinarySplit_def srt Let_def mergeFlat_def split: option.splits)
  with flat show ?thesis by simp
qed


section \<open>composeText in closed form\<close>

lemma slice_take_drop: "slice s (int a) (int a + int n) = take n (drop a s)"
proof (cases "a \<le> length s")
  case True
  then show ?thesis
    by (auto simp: slice_def Let_def min_def)
next
  case False
  then show ?thesis
    by (simp add: slice_def Let_def min_def)
qed

lemma foldl_composeRun:
  "foldl composeRun st rs =
     st\<lparr> fullText := fullText st @ concat (map run_text rs),
         runSpans := runSpans st @ layout (offset st) rs,
         offset := offset st + length (concat (map run_text rs)) \<rparr>"
proof (induction rs arbitrary: st)
  case Nil
  then show ?case by simp
next
  case (Cons r rs)
  have step: "composeRun st r =
      st\<lparr> fullText := fullText st @ run_text r,
          runSpans := runSpans st @ [\<lparr> span_start = offset st, span_length = length (run_text r),
                                       span_font = run_font r \<rparr>],
          offset := offset st + length (run_text r) \<rparr>"
    by (simp add: composeRun_def)
  show ?case
    by (simp add: Cons.IH step)
qed

lemma composeParagraph_eq:
  assumes "i < length ps"
  shows "composeParagraph ps settings st i =
     \<lparr> fullText = fullText st @ paragraphText (ps ! i)
                      @ (if Suc i < length ps then [joiner settings] else []),
       paragraphSpans = paragraphSpans st @
          [\<lparr> pspan_start = offset st, pspan_length = length (paragraphText (ps ! i)),
             pspan_format = paragraphFormat (ps ! i) \<rparr>],
       runSpans = runSpans st @ layout (offset st) (p_runs (ps ! i)),
       offset = offset st + length (paragraphText (ps ! i))
                  + (if Suc i < length ps then 1 else 0) \<rparr>"
proof -
  have c: "(int i < int (length ps) - 1) = (Suc i < length ps)"
    by auto
  show ?thesis
    unfolding composeParagraph_def Let_def foldl_composeRun c
    by (simp add: paragraphText_def joiner_def)
qed

lemma textWithSeps_snoc:
  "textWithSeps sep (xs @ [p]) = textWithSeps sep xs @ paragraphText p @ [sep]"
  by (simp add: textWithSeps_def)

lemma length_textWithSeps_Cons:
  "length (textWithSeps sep (p # xs)) = length (paragraphText p) + 1 + length (textWithSeps sep xs)"
  by (simp add: textWithSeps_def)

lemma paragraphLayout_snoc:
  "paragraphLayout off (xs @ [p]) = paragraphLayout off xs @
     [\<lparr> pspan_start = off + length (textWithSeps sep xs),
        pspan_length = length (paragraphText p), pspan_format = paragraphFormat p \<rparr>]"
proof (induction xs arbitrary: off)
  case Nil
  then show ?case by (simp add: textWithSeps_def)
next
  case (Cons x xs)
  show ?case
    by (simp add: Cons.IH length_textWithSeps_Cons add.assoc)
qed

lemma runLayout_snoc:
  "runLayout off (xs @ [p]) = runLayout off xs @ layout (off + length (textWithSeps sep xs)) (p_runs p)"
proof (induction xs arbitrary: off)
  case Nil
  then show ?case by (simp add: textWithSeps_def)
next
  case (Cons x xs)
  show ?case
    by (simp add: Cons.IH length_textWithSeps_Cons add.assoc)
qed

lemma compose_prefix:
  "k < length ps \<Longrightarrow>
   foldl (composeParagraph ps settings)
       \<lparr> fullText = [], paragraphSpans = [], runSpans = [], offset = 0 \<rparr> [0..<k] =
     \<lparr> fullText = textWithSeps (joiner settings) (take k ps),
       paragraphSpans = paragraphLayout 0 (take k ps),
       runSpans = runLayout 0 (take k ps),
       offset = length (textWithSeps (joiner settings) (take k ps)) \<rparr>"
proof (induction k)
  case 0
  then show ?case by (simp add: textWithSeps_def)
next
  case (Suc k)
  then have k: "k < length ps" and sk: "Suc k < length ps" by simp_all
  have tk: "take (Suc k) ps = take k ps @ [ps ! k]"
    using k by (rule take_Suc_conv_app_nth)
  show ?case
    using Suc.IH [OF k] sk
    by (simp add: composeParagraph_eq [OF k] tk textWithSeps_snoc
        paragraphLayout_snoc [where sep = "joiner settings"]
        runLayout_snoc [where sep = "joiner settings"])
qed

lemma join_textWithSeps:
  "ps \<noteq> [] \<Longrightarrow>
   join [sep] (map paragraphText ps) = textWithSeps sep (butlast ps) @ paragraphText (last ps)"
proof (induction ps)
  case Nil
  then show ?case by simp
next
  case (Cons p ps)
  show ?case
  proof (cases ps)
    case Nil
    then show ?thesis by (simp add: textWithSeps_def)
  next
    case (Cons q qs)
    with Cons.IH show ?thesis by (simp add: textWithSeps_def)
  qed
qed

lemma composeText_closed:
  "fullText (composeText ps settings) = join [joiner settings] (map paragraphText ps) \<and>
   paragraphSpans (composeText ps settings) = paragraphLayout 0 ps \<and>
   runSpans (composeText ps settings) = runLayout 0 ps"
proof (cases "ps = []")
  case True
  then show ?thesis by (simp add: composeText_def)
next
  case False
  then obtain m where n: "length ps = Suc m"
    by (cases ps) auto
  then have m: "m < length ps" by simp
  have tk: "take m ps = butlast ps"
    using n by (simp add: butlast_conv_take)
  have lst: "ps ! m = last ps"
    using False n by (simp add: last_conv_nth)
  have bl: "butlast ps @ [last ps] = ps"
    using False by simp
  have "composeText ps settings =
      composeParagraph ps settings
        (foldl (composeParagraph ps settings)
           \<lparr> fullText = [], paragraphSpans = [], runSpans = [], offset = 0 \<rparr> [0..<m]) m"
    by (simp add: composeText_def n)
  then have eq: "composeText ps settings =
      \<lparr> fullText = textWithSeps (joiner settings) (butlast ps) @ paragraphText (last ps),
        paragraphSpans = paragraphLayout 0 (butlast ps) @
          [\<lparr> pspan_start = length (textWithSeps (joiner settings) (butlast ps)),
             pspan_length = length (paragraphText (last ps)),
             pspan_format = paragraphFormat (last ps) \<rparr>],
        runSpans = runLayout 0 (butlast ps) @
          layout (length (textWithSeps (joiner settings) (butlast ps))) (p_runs (last ps)),
        offset = length (textWithSeps (joiner settings) (butlast ps))
                   + length (paragraphText (last ps)) \<rparr>"
    by (simp add: compose_prefix [OF m] composeParagraph_eq [OF m] tk lst n)
  have pl: "paragraphLayout 0 ps = paragraphLayout 0 (butlast ps) @
          [\<lparr> pspan_start = length (textWithSeps (joiner settings) (butlast ps)),
             pspan_length = length (paragraphText (last ps)),
             pspan_format = paragraphFormat (last ps) \<rparr>]"
    using paragraphLayout_snoc [of 0 "butlast ps" "last ps" "joiner settings"] bl by simp
  have rl: "runLayout 0 ps = runLayout 0 (butlast ps) @
          layout (length (textWithSeps (joiner settings) (butlast ps))) (p_runs (last ps))"
    using runLayout_snoc [of 0 "butlast ps" "last ps" "joiner settings"] bl by simp
  show ?thesis
    unfolding eq by (simp add: join_textWithSeps [OF False] pl rl)
qed

lemma layout_slices:
  "list_all2 (\<lambda>sp r. span_font sp = run_font r \<and> span_length sp = length (run_text r) \<and>
                take (span_length sp) (drop (span_start sp) (pre @ concat (map run_text rs) @ post))
                  = run_text r)
     (layout (length pre) rs) rs"
proof (induction rs arbitrary: pre)
  case Nil
  then show ?case by simp
next
  case (Cons r rs)
  from Cons.IH [of "pre @ run_text r"]
  show ?case by simp
qed

lemma layout_bounds:
  "sp \<in> set (layout off rs) \<Longrightarrow>
   off \<le> span_start sp \<and> span_start sp + span_length sp \<le> off + length (concat (map run_text rs))"
proof (induction rs arbitrary: off)
  case Nil
  then show ?case by simp
next
  case (Cons r rs)
  from Cons.prems consider "sp = \<lparr> span_start = off, span_length = length (run_text r), span_font = run_font r \<rparr>"
    | "sp \<in> set (layout (off + length (run_text r)) rs)"
    by auto
  then show ?case
  proof cases
    case 1
    then show ?thesis by simp
  next
    case 2
    from Cons.IH [OF 2] show ?thesis by simp
  qed
qed

lemma layout_sorted:
  "sorted_wrt (\<lambda>a b. span_start a + span_length a \<le> span_start b) (layout off rs)"
proof (induction rs arbitrary: off)
  case Nil
  then show ?case by simp
next
  case (Cons r rs)
  have "off + length (run_text r) \<le> span_start y" if "y \<in> set (layout (off + length (run_text r)) rs)" for y
    using layout_bounds [OF that] by simp
  then show ?case
    using Cons.IH by simp
qed

lemma runLayout_lower:
  "sp \<in> set (runLayout off ps) \<Longrightarrow> off \<le> span_start sp"
proof (induction ps arbitrary: off)
  case Nil
  then show ?case by simp
next
  case (Cons p ps)
  from Cons.prems consider "sp \<in> set (layout off (p_runs p))"
    | "sp \<in> set (runLayout (off + length (paragraphText p) + 1) ps)"
    by auto
  then show ?case
  proof cases
    case 1
    from layout_bounds [OF 1] show ?thesis by simp
  next
    case 2
    from Cons.IH [OF 2] show ?thesis by simp
  qed
qed

lemma runLayout_sorted:
  "sorted_wrt (\<lambda>a b. span_start a + span_length a \<le> span_start b) (runLayout off ps)"
proof (induction ps arbitrary: off)
  case Nil
  then show ?case by simp
next
  case (Cons p ps)
  have cross: "span_start x + span_length x \<le> span_start y"
    if x: "x \<in> set (layout off (p_runs p))"
      and y: "y \<in> set (runLayout (off + length (paragraphText p) + 1) ps)" for x y
  proof -
    from layout_bounds [OF x] have "span_start x + span_length x \<le> off + length (paragraphText p)"
      by (simp add: paragraphText_def)
    moreover from runLayout_lower [OF y] have "off + length (paragraphText p) + 1 \<le> span_start y" .
    ultimately show ?thesis by simp
  qed
  show ?case
    using Cons.IH layout_sorted cross by (simp add: sorted_wrt_append)
qed

lemma paragraphLayout_lower:
  "sp \<in> set (paragraphLayout off ps) \<Longrightarrow> off \<le> pspan_start sp"
proof (induction ps arbitrary: off)
  case Nil
  then show ?case by simp
next
  case (Cons p ps)
  from Cons.prems consider "sp = \<lparr> pspan_start = off, pspan_length = length (paragraphText p),
        pspan_format = paragraphFormat p \<rparr>"
    | "sp \<in> set (paragraphLayout (off + length (paragraphText p) + 1) ps)"
    by auto
  then show ?case
  proof cases
    case 1
    then show ?thesis by simp
  next
    case 2
    from Cons.IH [OF 2] show ?thesis by simp
  qed
qed

lemma paragraphLayout_sorted:
  "sorted_wrt (\<lambda>a b. pspan_start a + pspan_length a < pspan_start b) (paragraphLayout off ps)"
proof (induction ps arbitrary: off)
  case Nil
  then show ?case by simp
next
  case (Cons p ps)
  have "off + length (paragraphText p) < pspan_start y"
    if "y \<in> set (paragraphLayout (off + length (paragraphText p) + 1) ps)" for y
    using paragraphLayout_lower [OF that] by simp
  then show ?case
    using Cons.IH by simp
qed

lemma join_Cons2:
  "ps \<noteq> [] \<Longrightarrow> join sep (x # ps) = x @ sep @ join sep ps"
  by (cases ps) simp_all

lemma paragraphLayout_slices:
  "list_all2 (\<lambda>sp p. pspan_format sp = paragraphFormat p \<and>
                pspan_length sp = length (paragraphText p) \<and>
                take (pspan_length sp) (drop (pspan_start sp) (pre @ join [sep] (map paragraphText ps)))
                  = paragraphText p)
     (paragraphLayout (length pre) ps) ps"
proof (induction ps arbitrary: pre)
  case Nil
  then show ?case by simp
next
  case (Cons p ps)
  show ?case
  proof (cases "ps = []")
    case True
    then show ?thesis by simp
  next
    case False
    then have j: "join [sep] (map paragraphText (p # ps))
        = paragraphText p @ [sep] @ join [sep] (map paragraphText ps)"
      by (simp add: join_Cons2)
    from Cons.IH [of "pre @ paragraphText p @ [sep]"]
    show ?thesis
      unfolding j by simp
  qed
qed

lemma runLayout_slices:
  "list_all2 (\<lambda>sp r. span_font sp = run_font r \<and> span_length sp = length (run_text r) \<and>
                take (span_length sp) (drop (span_start sp) (pre @ join [sep] (map paragraphText ps)))
                  = run_text r)
     (runLayout (length pre) ps) (concat (map p_runs ps))"
proof (induction ps arbitrary: pre)
  case Nil
  then show ?case by simp
next
  case (Cons p ps)
  show ?case
  proof (cases "ps = []")
    case True
    from layout_slices [of pre "p_runs p" "[]"]
    show ?thesis
      using True by (simp add: paragraphText_def)
  next
    case False
    then have j: "join [sep] (map paragraphText (p # ps))
        = paragraphText p @ [sep] @ join [sep] (map paragraphText ps)"
      by (simp add: join_Cons2)
    have hd: "list_all2 (\<lambda>sp r. span_font sp = run_font r \<and> span_length sp = length (run_text r) \<and>
                take (span_length sp) (drop (span_start sp)
                   (pre @ paragraphText p @ [sep] @ join [sep] (map paragraphText ps)))
                  = run_text r)
         (layout (length pre) (p_runs p)) (p_runs p)"
      using layout_slices [of pre "p_runs p" "[sep] @ join [sep] (map paragraphText ps)"]
      by (simp add: paragraphText_def)
    have tl: "list_all2 (\<lambda>sp r. span_font sp = run_font r \<and> span_length sp = length (run_text r) \<and>
                take (span_length sp) (drop (span_start sp)
                   (pre @ paragraphText p @ [sep] @ join [sep] (map paragraphText ps)))
                  = run_text r)
         (runLayout (length pre + length (paragraphText p) + 1) ps) (concat (map p_runs ps))"
      using Cons.IH [of "pre @ paragraphText p @ [sep]"] by simp
    show ?thesis
      unfolding j using list_all2_appendI [OF hd tl] by simp
  qed
qed

lemma runLayout_tiles:
  "runLayout off ps =
     concat (map2 (\<lambda>sp p. layout (pspan_start sp) (p_runs p)) (paragraphLayout off ps) ps)"
  by (induction ps arbitrary: off) simp_all


section \<open>The run after an abort\<close>

lemma claimNext_aborted: "claimNext s b True p = (p, None, None)"
  by (subst claimNext.simps) simp

lemma startWorkers_aborted: "startWorkers s b True n acc = acc"
proof (induction n arbitrary: acc)
  case 0
  then show ?case by simp
next
  case (Suc n)
  obtain p sent thrown where acc: "acc = (p, sent, thrown)"
    by (cases acc) auto
  show ?case
    unfolding acc by (cases thrown) (simp_all add: claimNext_aborted Suc.IH)
qed

text \<open>Once the signal is aborted, no piece of the run sends a chunk or starts an extraction.\<close>

lemma loopHead_aborted:
  assumes "aborted c"
  shows "aborted (loopHead env k c) \<and> requests (loopHead env k c) = requests c \<and>
     extracted (loopHead env k c) = extracted c \<and> control (loopHead env k c) = Finished \<and>
     last (progress (loopHead env k c)) = (length (env_indices env), length (env_indices env), Annule)"
  using assms by (simp add: loopHead_def Let_def)

lemma finishSlide_aborted:
  assumes "aborted c"
  shows "aborted (finishSlide env k c t pv) \<and> requests (finishSlide env k c t pv) = requests c \<and>
     extracted (finishSlide env k c t pv) = extracted c \<and> control (finishSlide env k c t pv) = Finished \<and>
     last (progress (finishSlide env k c t pv)) = (length (env_indices env), length (env_indices env), Annule)"
proof -
  let ?c1 = "c\<lparr> translatedTotal := translatedTotal c + t,
           previewText := (if previewText c = [] \<and> pv \<noteq> [] then pv else previewText c),
           progress := progress c @
             [(k + 1, length (env_indices env), SlideTermine (env_indices env ! k + 1))] \<rparr>"
  have a: "aborted ?c1" using assms by simp
  have f: "finishSlide env k c t pv = loopHead env (k + 1) ?c1"
    by (simp add: finishSlide_def)
  show ?thesis
    unfolding f using loopHead_aborted [OF a, of env "k + 1"] by simp
qed

lemma afterChunks_aborted:
  assumes "aborted c"
  shows "aborted (afterChunks env k c tr) \<and> requests (afterChunks env k c tr) = requests c \<and>
     extracted (afterChunks env k c tr) = extracted c \<and>
     (control (afterChunks env k c tr) = Finished \<longrightarrow>
        last (progress (afterChunks env k c tr)) = (length (env_indices env), length (env_indices env), Annule))"
proof -
  obtain cache' every where m: "mergeTranslated (curPrep c) (sessionCache c) tr = (cache', every)"
    by (cases "mergeTranslated (curPrep c) (sessionCache c) tr") auto
  let ?c1 = "c\<lparr>sessionCache := cache', curMap := resultMap every\<rparr>"
  have a: "aborted ?c1" using assms by simp
  show ?thesis
  proof (cases "mode (env_settings env) = Preview")
    case True
    then have f: "afterChunks env k c tr =
        finishSlide env k ?c1 (mapSize (resultMap every)) (buildPreview (curTargets c) (resultMap every))"
      by (simp add: afterChunks_def m Let_def)
    show ?thesis
      unfolding f using finishSlide_aborted [OF a] by simp
  next
    case False
    then have f: "afterChunks env k c tr = ?c1\<lparr>control := Applying k\<rparr>"
      by (simp add: afterChunks_def m Let_def)
    show ?thesis
      unfolding f using assms by simp
  qed
qed


lemma afterExtract_aborted:
  assumes "aborted c"
  shows "aborted (afterExtract env k c) \<and> requests (afterExtract env k c) = requests c \<and>
     extracted (afterExtract env k c) = extracted c \<and>
     (control (afterExtract env k c) = Finished \<longrightarrow>
        last (progress (afterExtract env k c)) = (length (env_indices env), length (env_indices env), Annule))"
proof -
  let ?n = "length (env_indices env)"
  let ?idx = "env_indices env ! k"
  let ?targets = "env_extract env ?idx"
  show ?thesis
  proof (cases "targetCount ?targets = 0")
    case True
    let ?c0 = "c\<lparr>progress := progress c @ [(k + 1, ?n, SlideTermineZero (?idx + 1))]\<rparr>"
    have a: "aborted ?c0" using assms by simp
    from True have f: "afterExtract env k c = loopHead env (k + 1) ?c0"
      by (simp add: afterExtract_def Let_def)
    show ?thesis
      unfolding f using loopHead_aborted [OF a, of env "k + 1"] by simp
  next
    case False
    let ?c1 = "c\<lparr>progress := progress c @ [(k, ?n, TraductionSlide (?idx + 1) ?n)]\<rparr>"
    have a1: "aborted ?c1" using assms by simp
    show ?thesis
    proof (cases "buildTranslateItems ?targets = []")
      case True
      with False have f: "afterExtract env k c = finishSlide env k ?c1 0 []"
        by (simp add: afterExtract_def Let_def)
      show ?thesis
        unfolding f using finishSlide_aborted [OF a1] by simp
    next
      case items: False
      let ?prep = "prepare (sessionCache ?c1) (buildTranslateItems ?targets)"
      let ?batches = "chunkByChars (pending ?prep) defaultMaxChars defaultMaxItems"
      let ?c2 = "?c1\<lparr>curTargets := ?targets, curPrep := ?prep, curChunks := ?batches\<rparr>"
      have a2: "aborted ?c2" using assms by simp
      show ?thesis
      proof (cases "?batches = []")
        case True
        with False items have f: "afterExtract env k c = afterChunks env k ?c2 []"
          by (simp add: afterExtract_def Let_def)
        show ?thesis
          unfolding f using afterChunks_aborted [OF a2] by simp
      next
        case batches: False
        let ?c3 = "?c2\<lparr>pool := \<lparr> cursor = 0, inflight = [], results = [] \<rparr>, requests := requests ?c2\<rparr>"
        have a3: "aborted ?c3" using assms by simp
        from False items batches assms
        have f: "afterExtract env k c = afterChunks env k ?c3 []"
          by (simp add: afterExtract_def Let_def startWorkers_aborted)
        show ?thesis
          unfolding f using afterChunks_aborted [OF a3] by simp
      qed
    qed
  qed
qed

lemma onResponse_aborted:
  assumes "aborted c" and "control c \<noteq> Finished"
  shows "aborted (onResponse env c i payload) \<and> requests (onResponse env c i payload) = requests c \<and>
     extracted (onResponse env c i payload) = extracted c \<and>
     (control (onResponse env c i payload) = Finished \<longrightarrow>
        last (progress (onResponse env c i payload)) = (length (env_indices env), length (env_indices env), Annule))"
proof (cases "i \<in> set (inflight (pool c))")
  case False
  then show ?thesis using assms by (simp add: onResponse_def)
next
  case True
  let ?p1 = "(pool c)\<lparr>inflight := removeAll i (inflight (pool c))\<rparr>"
  show ?thesis
  proof (cases "translateBatchFinish payload")
    case (Inl e)
    with True assms show ?thesis
      by (auto simp: onResponse_def Let_def split: Control.splits)
  next
    case (Inr rs)
    let ?p2 = "?p1\<lparr>results := results ?p1 @ rs\<rparr>"
    let ?c1 = "c\<lparr>pool := ?p2, requests := requests c\<rparr>"
    have a1: "aborted ?c1" using assms by simp
    have cl: "claimNext (env_settings env) (curChunks c) (aborted c) ?p2 = (?p2, None, None)"
      using assms by (simp add: claimNext_aborted)
    show ?thesis
    proof (cases "\<exists>k. control c = Translating k")
      case tr: True
      then obtain k where k: "control c = Translating k" by blast
      show ?thesis
      proof (cases "inflight ?p2 = []")
        case True
        with \<open>i \<in> set (inflight (pool c))\<close> Inr k cl
        have f: "onResponse env c i payload = afterChunks env k ?c1 (results ?p2)"
          by (simp add: onResponse_def Let_def)
        show ?thesis
          unfolding f using afterChunks_aborted [OF a1] by simp
      next
        case False
        with \<open>i \<in> set (inflight (pool c))\<close> Inr k cl
        have f: "onResponse env c i payload = ?c1"
          by (simp add: onResponse_def Let_def)
        show ?thesis
          unfolding f using assms k by simp
      qed
    next
      case False
      with True Inr cl have f: "onResponse env c i payload = ?c1"
        by (cases "control c") (simp_all add: onResponse_def Let_def)
      show ?thesis
        unfolding f using assms by simp
    qed
  qed
qed

lemma onHostDone_aborted:
  assumes "aborted c"
  shows "aborted (onHostDone env c) \<and> requests (onHostDone env c) = requests c \<and>
     extracted (onHostDone env c) = extracted c \<and>
     (control c \<noteq> Finished \<longrightarrow> control (onHostDone env c) = Finished \<longrightarrow>
        last (progress (onHostDone env c)) = (length (env_indices env), length (env_indices env), Annule))"
proof (cases "control c")
  case Starting
  then show ?thesis
    using loopHead_aborted [OF assms, of env 0] by (simp add: onHostDone_def)
next
  case (Extracting k)
  then show ?thesis
    using afterExtract_aborted [OF assms, of env k] by (simp add: onHostDone_def)
next
  case (Translating k)
  then show ?thesis using assms by (simp add: onHostDone_def)
next
  case (Applying k)
  let ?c1 = "c\<lparr>writes := writes c @
                 applySlideTranslations (env_hasText env (slideIndex (curTargets c)))
                   (curTargets c) (curMap c) (env_settings env)\<rparr>"
  have a: "aborted ?c1" using assms by simp
  from Applying have f: "onHostDone env c = finishSlide env k ?c1 (mapSize (curMap c)) []"
    by (simp add: onHostDone_def)
  show ?thesis
    unfolding f using finishSlide_aborted [OF a] by simp
next
  case Finished
  then show ?thesis using assms by (simp add: onHostDone_def)
next
  case (Rejected e)
  then show ?thesis using assms by (simp add: onHostDone_def)
qed

lemma step_aborted:
  assumes "aborted c"
  shows "aborted (step env c ev) \<and> requests (step env c ev) = requests c \<and>
     extracted (step env c ev) = extracted c"
proof (cases ev)
  case AbortEv
  then show ?thesis using assms by (simp add: step_def)
next
  case HostDone
  then show ?thesis using onHostDone_aborted [OF assms, of env] by (simp add: step_def)
next
  case (Response i payload)
  show ?thesis
  proof (cases "control c = Finished")
    case True
    with Response assms show ?thesis by (simp add: step_def)
  next
    case False
    from onResponse_aborted [OF assms False, of env i payload] Response assms
    show ?thesis
      by (cases "control c") (simp_all add: step_def)
  qed
qed

lemma step_cancelledOk:
  assumes "cancelledOk env c"
  shows "cancelledOk env (step env c ev)"
proof -
  from assms have a: "aborted c" by (simp add: cancelledOk_def)
  from step_aborted [OF a, of env ev] have a': "aborted (step env c ev)" by simp
  show ?thesis
  proof (cases "control c = Finished")
    case True
    then have "control (step env c ev) = Finished \<and> progress (step env c ev) = progress c"
      by (cases ev) (simp_all add: step_def onHostDone_def)
    with assms True a' show ?thesis by (simp add: cancelledOk_def)
  next
    case False
    have "control (step env c ev) = Finished \<longrightarrow>
        last (progress (step env c ev)) = (length (env_indices env), length (env_indices env), Annule)"
    proof (cases ev)
      case AbortEv
      with False show ?thesis by (simp add: step_def)
    next
      case HostDone
      with False onHostDone_aborted [OF a, of env] show ?thesis by (simp add: step_def)
    next
      case (Response i payload)
      with False onResponse_aborted [OF a False, of env i payload] show ?thesis
        by (cases "control c") (simp_all add: step_def)
    qed
    with a' show ?thesis by (simp add: cancelledOk_def)
  qed
qed

lemma run_aborted:
  "aborted c \<Longrightarrow>
   aborted (foldl (step env) c evs) \<and> requests (foldl (step env) c evs) = requests c \<and>
   extracted (foldl (step env) c evs) = extracted c"
proof (induction evs arbitrary: c)
  case Nil
  then show ?case by simp
next
  case (Cons ev evs)
  from step_aborted [OF Cons.prems, of env ev]
  have s: "aborted (step env c ev)" "requests (step env c ev) = requests c"
    "extracted (step env c ev) = extracted c" by simp_all
  from Cons.IH [OF s(1)] s show ?case by simp
qed

lemma run_cancelledOk:
  "cancelledOk env c \<Longrightarrow> cancelledOk env (foldl (step env) c evs)"
  by (induction evs arbitrary: c) (simp_all add: step_cancelledOk)

lemma translateScope_append:
  "translateScope env (es @ es') = foldl (step env) (translateScope env es) es'"
  by (simp add: translateScope_def)

lemma abort_stops_dispatch:
  "requests (translateScope env (es @ AbortEv # es')) = requests (translateScope env es) \<and>
   extracted (translateScope env (es @ AbortEv # es')) = extracted (translateScope env es)"
proof -
  let ?c = "translateScope env es"
  have s: "step env ?c AbortEv = ?c\<lparr>aborted := True\<rparr>"
    by (simp add: step_def)
  have a: "aborted (?c\<lparr>aborted := True\<rparr>)" by simp
  from run_aborted [OF a, of env es']
  show ?thesis
    by (simp add: translateScope_append s)
qed

lemma abort_final_label:
  assumes "control (translateScope env es) \<noteq> Finished"
    and "control (translateScope env (es @ AbortEv # es')) = Finished"
  shows "last (progress (translateScope env (es @ AbortEv # es')))
     = (length (env_indices env), length (env_indices env), Annule)"
proof -
  let ?c = "translateScope env es"
  have s: "step env ?c AbortEv = ?c\<lparr>aborted := True\<rparr>"
    by (simp add: step_def)
  have "cancelledOk env (?c\<lparr>aborted := True\<rparr>)"
    using assms(1) by (simp add: cancelledOk_def)
  from run_cancelledOk [OF this, of es']
  have "cancelledOk env (translateScope env (es @ AbortEv # es'))"
    by (simp add: translateScope_append s)
  with assms(2) show ?thesis by (simp add: cancelledOk_def)
qed


section \<open>The run after a failed chunk\<close>

lemma response_failure:
  assumes "control c = Translating k" and "i \<in> set (inflight (pool c))"
    and "translateBatchFinish payload = Inl e"
  shows "step env c (Response i payload) =
     c\<lparr>pool := (pool c)\<lparr>inflight := removeAll i (inflight (pool c))\<rparr>, control := Rejected e\<rparr>"
  using assms by (simp add: step_def onResponse_def Let_def)

lemma rejected_step:
  assumes "control c = Rejected e"
  shows "control (step env c ev) = Rejected e \<and> writes (step env c ev) = writes c \<and>
     extracted (step env c ev) = extracted c \<and> progress (step env c ev) = progress c \<and>
     translatedTotal (step env c ev) = translatedTotal c \<and>
     sessionCache (step env c ev) = sessionCache c"
proof (cases ev)
  case AbortEv
  with assms show ?thesis by (simp add: step_def)
next
  case HostDone
  with assms show ?thesis by (simp add: step_def onHostDone_def)
next
  case (Response i payload)
  with assms show ?thesis
    by (auto simp: step_def onResponse_def Let_def split: sum.splits prod.splits)
qed

lemma rejected_run:
  "control c = Rejected e \<Longrightarrow>
   control (foldl (step env) c evs) = Rejected e \<and> writes (foldl (step env) c evs) = writes c \<and>
   extracted (foldl (step env) c evs) = extracted c \<and> progress (foldl (step env) c evs) = progress c \<and>
   translatedTotal (foldl (step env) c evs) = translatedTotal c \<and>
   sessionCache (foldl (step env) c evs) = sessionCache c"
proof (induction evs arbitrary: c)
  case Nil
  then show ?case by simp
next
  case (Cons ev evs)
  from rejected_step [OF Cons.prems, of env ev]
  have s: "control (step env c ev) = Rejected e" "writes (step env c ev) = writes c"
    "extracted (step env c ev) = extracted c" "progress (step env c ev) = progress c"
    "translatedTotal (step env c ev) = translatedTotal c"
    "sessionCache (step env c ev) = sessionCache c"
    by simp_all
  from Cons.IH [OF s(1)] s show ?case by simp
qed

lemma failure_stops_run:
  assumes "control (translateScope env es) = Translating k"
    and "i \<in> set (inflight (pool (translateScope env es)))"
    and "translateBatchFinish payload = Inl e"
  shows "control (translateScope env (es @ Response i payload # es')) = Rejected e \<and>
     writes (translateScope env (es @ Response i payload # es')) = writes (translateScope env es) \<and>
     extracted (translateScope env (es @ Response i payload # es')) = extracted (translateScope env es) \<and>
     progress (translateScope env (es @ Response i payload # es')) = progress (translateScope env es) \<and>
     translatedTotal (translateScope env (es @ Response i payload # es')) = translatedTotal (translateScope env es) \<and>
     sessionCache (translateScope env (es @ Response i payload # es')) = sessionCache (translateScope env es)"
proof -
  let ?c = "translateScope env es"
  let ?c1 = "?c\<lparr>pool := (pool ?c)\<lparr>inflight := removeAll i (inflight (pool ?c))\<rparr>, control := Rejected e\<rparr>"
  have s: "step env ?c (Response i payload) = ?c1"
    using assms by (rule response_failure)
  have r: "control ?c1 = Rejected e" by simp
  from rejected_run [OF r, of env es']
  show ?thesis
    by (simp add: translateScope_append s)
qed

section \<open>The first loop of translateAndMaybeApplySlide\<close>

lemma mapGet_mapSet: "mapGet (mapSet k v m) k' = (if k' = k then Some v else mapGet m k')"
  by (simp add: mapGet_def mapSet_def update_conv')

lemma mapGet_Nil: "mapGet [] k = None"
  by (simp add: mapGet_def)

lemma prepInv_init: "prepInv cache [] \<lparr> pending = [], keyToIds = [], idToKey = [], allResults = [] \<rparr>"
  by (simp add: prepInv_def mapGet_Nil)

lemma prepStep_cached:
  assumes "mapGet cache (translateKey item) = Some cached"
  shows "prepStep cache st item =
     st\<lparr>allResults := allResults st @
           [\<lparr> res_paragraphId = paragraphId item, translatedRuns = cached \<rparr>]\<rparr>"
  using assms by (simp add: prepStep_def Let_def)

lemma prepStep_known:
  assumes "mapGet cache (translateKey item) = None"
    and "mapGet (keyToIds st) (translateKey item) = Some ids"
  shows "prepStep cache st item =
     st\<lparr>keyToIds := mapSet (translateKey item) (ids @ [paragraphId item]) (keyToIds st)\<rparr>"
  using assms by (simp add: prepStep_def Let_def)

lemma prepStep_new:
  assumes "mapGet cache (translateKey item) = None"
    and "mapGet (keyToIds st) (translateKey item) = None"
  shows "prepStep cache st item =
     st\<lparr> keyToIds := mapSet (translateKey item) [paragraphId item] (keyToIds st),
         idToKey := mapSet (paragraphId item) (translateKey item) (idToKey st),
         pending := pending st @ [item] \<rparr>"
  using assms by (simp add: prepStep_def Let_def)

lemma take1_snoc: "xs \<noteq> [] \<Longrightarrow> take (Suc 0) (xs @ [y]) = take (Suc 0) xs"
  by (cases xs) simp_all

lemma prepStep_inv:
  assumes inv: "prepInv cache seen st"
  shows "prepInv cache (seen @ [item]) (prepStep cache st item)"
proof (cases "mapGet cache (translateKey item)")
  case (Some cached)
  show ?thesis
    unfolding prepStep_cached [OF Some]
    using inv Some by (auto simp: prepInv_def)
next
  case None
  show ?thesis
  proof (cases "mapGet (keyToIds st) (translateKey item)")
    case (Some ids)
    from inv Some None have seen: "\<exists>x \<in> set seen. translateKey x = translateKey item"
      and ids: "ids = map paragraphId (filter (\<lambda>x. translateKey x = translateKey item) seen)"
      by (auto simp: prepInv_def split: if_splits)
    from seen have ne: "filter (\<lambda>x. translateKey x = translateKey item) seen \<noteq> []"
      by (simp add: filter_empty_conv)
    from ne have len: "Suc 0 \<le> length (filter (\<lambda>x. translateKey x = translateKey item) seen)"
      by (simp add: Suc_le_eq)
    show ?thesis
      unfolding prepStep_known [OF None Some]
      using inv None ids ne seen len
      by (auto simp: prepInv_def mapGet_mapSet take1_snoc)
  next
    case none: None
    from inv none None have unseen: "\<not> (\<exists>x \<in> set seen. translateKey x = translateKey item)"
      by (auto simp: prepInv_def split: if_splits)
    then have e: "filter (\<lambda>x. translateKey x = translateKey item) seen = []"
      by (simp add: filter_empty_conv)
    have p: "filter (\<lambda>x. translateKey x = translateKey item) (pending st) = []"
      using inv None e by (simp add: prepInv_def)
    show ?thesis
      unfolding prepStep_new [OF None none]
      using inv None e p unseen
      by (auto simp: prepInv_def mapGet_mapSet)
  qed
qed

lemma prepare_foldl_inv:
  "prepInv cache seen st \<Longrightarrow> prepInv cache (seen @ items) (foldl (prepStep cache) st items)"
proof (induction items arbitrary: seen st)
  case Nil
  then show ?case by simp
next
  case (Cons item items)
  from Cons.IH [OF prepStep_inv [OF Cons.prems, of item]]
  show ?case by simp
qed

lemma prepare_inv: "prepInv cache items (prepare cache items)"
  using prepare_foldl_inv [OF prepInv_init, of cache items] by (simp add: prepare_def)


section \<open>The second loop and the result map\<close>

lemma translateKey_nonempty: "translateKey x \<noteq> []"
  by (simp add: translateKey_def stringifyStrings_def)

lemma prepInv_pending_seen:
  assumes "prepInv cache seen st" and "x \<in> set (pending st)"
  shows "x \<in> set seen \<and> mapGet cache (translateKey x) = None"
proof -
  from assms(2) have "x \<in> set (filter (\<lambda>y. translateKey y = translateKey x) (pending st))"
    by simp
  also from assms(1) have "filter (\<lambda>y. translateKey y = translateKey x) (pending st) =
      (if mapGet cache (translateKey x) = None
       then take 1 (filter (\<lambda>y. translateKey y = translateKey x) seen) else [])"
    by (simp add: prepInv_def)
  finally have m: "x \<in> set (if mapGet cache (translateKey x) = None
       then take 1 (filter (\<lambda>y. translateKey y = translateKey x) seen) else [])" .
  have u: "mapGet cache (translateKey x) = None"
  proof (rule ccontr)
    assume "mapGet cache (translateKey x) \<noteq> None"
    with m show False by simp
  qed
  with m have "x \<in> set (take 1 (filter (\<lambda>y. translateKey y = translateKey x) seen))"
    by simp
  then have "x \<in> set (filter (\<lambda>y. translateKey y = translateKey x) seen)"
    by (blast dest: in_set_takeD)
  with u show ?thesis by simp
qed

lemma prepInv_idToKey:
  assumes inv: "prepInv cache seen st" and k: "mapGet (idToKey st) i = Some k"
  shows "k \<noteq> [] \<and> i \<in> set (orElse (mapGet (keyToIds st) k) [])"
proof -
  from inv have "\<forall>i k. mapGet (idToKey st) i = Some k \<longrightarrow>
      (\<exists>x \<in> set (pending st). paragraphId x = i \<and> translateKey x = k)"
    by (simp add: prepInv_def)
  with k obtain x where x: "x \<in> set (pending st)" "paragraphId x = i" "translateKey x = k"
    by blast
  from prepInv_pending_seen [OF inv x(1)] x(3)
  have s: "x \<in> set seen" and u: "mapGet cache k = None" by simp_all
  from inv s u x(3) have "mapGet (keyToIds st) k =
      Some (map paragraphId (filter (\<lambda>y. translateKey y = k) seen))"
    by (auto simp: prepInv_def)
  moreover have "i \<in> set (map paragraphId (filter (\<lambda>y. translateKey y = k) seen))"
    using s x(2,3) by auto
  ultimately show ?thesis
    using x(3) translateKey_nonempty [of x] by (simp add: orElse_def)
qed

lemma prepInv_keyToIds_ids:
  assumes inv: "prepInv cache seen st" and k: "mapGet (keyToIds st) k = Some ids"
  shows "ids = map paragraphId (filter (\<lambda>y. translateKey y = k) seen) \<and> mapGet cache k = None"
  using assms by (auto simp: prepInv_def split: if_splits)

text \<open>The map built from a result list: the last result of an id.\<close>

lemma resultMap_newMap: "resultMap rs = newMap (map (\<lambda>r. (res_paragraphId r, r)) rs)"
proof -
  have "foldl (\<lambda>m r. mapSet (res_paragraphId r) r m) acc rs =
      foldl (\<lambda>m (k, v). mapSet k v m) acc (map (\<lambda>r. (res_paragraphId r, r)) rs)" for acc
    by (induction rs arbitrary: acc) simp_all
  then show ?thesis by (simp add: resultMap_def newMap_def)
qed

lemma mapGet_resultMap:
  "mapGet (resultMap rs) i =
     (if \<exists>r \<in> set rs. res_paragraphId r = i
      then Some (last (filter (\<lambda>r. res_paragraphId r = i) rs))
      else None)"
proof -
  have f: "filter (\<lambda>e. fst e = i) (map (\<lambda>r. (res_paragraphId r, r)) rs)
      = map (\<lambda>r. (res_paragraphId r, r)) (filter (\<lambda>r. res_paragraphId r = i) rs)"
    by (simp add: filter_map comp_def)
  show ?thesis
  proof (cases "\<exists>r \<in> set rs. res_paragraphId r = i")
    case True
    then have ne: "filter (\<lambda>r. res_paragraphId r = i) rs \<noteq> []"
      by (simp add: filter_empty_conv)
    from True have "\<exists>e \<in> set (map (\<lambda>r. (res_paragraphId r, r)) rs). fst e = i"
      by auto
    then have "mapGet (resultMap rs) i
        = Some (snd (last (map (\<lambda>r. (res_paragraphId r, r)) (filter (\<lambda>r. res_paragraphId r = i) rs))))"
      unfolding resultMap_newMap mapGet_newMap f by simp
    also have "\<dots> = Some (last (filter (\<lambda>r. res_paragraphId r = i) rs))"
      using ne by (simp add: last_map)
    finally show ?thesis using True by simp
  next
    case False
    then have "\<not> (\<exists>e \<in> set (map (\<lambda>r. (res_paragraphId r, r)) rs). fst e = i)"
      by auto
    then show ?thesis using False unfolding resultMap_newMap mapGet_newMap by simp
  qed
qed

lemma resultMap_dom:
  "(mapGet (resultMap rs) i \<noteq> None) = (i \<in> res_paragraphId ` set rs)"
  by (auto simp: mapGet_resultMap)

text \<open>The second loop only appends to \<open>allResults\<close>.\<close>

lemma mergeResult_snd:
  "snd (mergeResult st acc r) =
     snd acc @
     (case mapGet (idToKey st) (res_paragraphId r) of
        None \<Rightarrow> []
      | Some key \<Rightarrow>
          if key = [] then []
          else map (\<lambda>i. \<lparr> res_paragraphId = i, translatedRuns = translatedRuns r \<rparr>)
                 (orElse (mapGet (keyToIds st) key) []))"
  by (simp add: mergeResult_def split: option.splits)

lemma merge_foldl_snd:
  "snd (foldl (mergeResult st) acc trs) = snd acc @ concat (map (fanOut st) trs)"
proof (induction trs arbitrary: acc)
  case Nil
  then show ?case by simp
next
  case (Cons r trs)
  show ?case
    by (simp add: Cons.IH mergeResult_snd fanOut_def)
qed

lemma mergeTranslated_snd:
  "snd (mergeTranslated st cache trs) = allResults st @ concat (map (fanOut st) trs)"
  by (simp add: mergeTranslated_def merge_foldl_snd)

lemma merge_records:
  assumes inv: "prepInv cache seen st" and r: "r \<in> set trs"
    and k: "mapGet (idToKey st) (res_paragraphId r) \<noteq> None"
  shows "mapGet (resultMap (snd (mergeTranslated st cache' trs))) (res_paragraphId r) \<noteq> None"
proof -
  from k obtain key where key: "mapGet (idToKey st) (res_paragraphId r) = Some key"
    by auto
  from prepInv_idToKey [OF inv key]
  have ne: "key \<noteq> []" and mem: "res_paragraphId r \<in> set (orElse (mapGet (keyToIds st) key) [])"
    by simp_all
  have "\<lparr> res_paragraphId = res_paragraphId r, translatedRuns = translatedRuns r \<rparr> \<in> set (fanOut st r)"
    using key ne mem by (auto simp: fanOut_def)
  then have "res_paragraphId r \<in> res_paragraphId ` set (fanOut st r)"
    by (rule rev_image_eqI) simp
  with r have "res_paragraphId r \<in> res_paragraphId ` set (concat (map (fanOut st) trs))"
    by auto
  then show ?thesis
    unfolding resultMap_dom mergeTranslated_snd by auto
qed


section \<open>What every run keeps\<close>

lemma loopHead_frame:
  "curPrep (loopHead env k c) = curPrep c \<and> curMap (loopHead env k c) = curMap c \<and>
   sessionCache (loopHead env k c) = sessionCache c \<and> pool (loopHead env k c) = pool c \<and>
   curChunks (loopHead env k c) = curChunks c \<and> curTargets (loopHead env k c) = curTargets c \<and>
   writes (loopHead env k c) = writes c \<and> requests (loopHead env k c) = requests c \<and>
   aborted (loopHead env k c) = aborted c \<and>
   (\<exists>j. control (loopHead env k c) = Extracting j \<or> control (loopHead env k c) = Finished)"
  by (simp add: loopHead_def Let_def)

lemma finishSlide_frame:
  "curPrep (finishSlide env k c t pv) = curPrep c \<and> curMap (finishSlide env k c t pv) = curMap c \<and>
   sessionCache (finishSlide env k c t pv) = sessionCache c \<and> pool (finishSlide env k c t pv) = pool c \<and>
   curChunks (finishSlide env k c t pv) = curChunks c \<and>
   curTargets (finishSlide env k c t pv) = curTargets c \<and>
   writes (finishSlide env k c t pv) = writes c \<and> requests (finishSlide env k c t pv) = requests c \<and>
   aborted (finishSlide env k c t pv) = aborted c \<and>
   (\<exists>j. control (finishSlide env k c t pv) = Extracting j \<or> control (finishSlide env k c t pv) = Finished)"
  using loopHead_frame [of env "k + 1"] by (simp add: finishSlide_def)

lemma afterChunks_frame:
  "curPrep (afterChunks env k c tr) = curPrep c \<and>
   curMap (afterChunks env k c tr) = resultMap (snd (mergeTranslated (curPrep c) (sessionCache c) tr)) \<and>
   sessionCache (afterChunks env k c tr) = fst (mergeTranslated (curPrep c) (sessionCache c) tr) \<and>
   pool (afterChunks env k c tr) = pool c \<and> curChunks (afterChunks env k c tr) = curChunks c \<and>
   curTargets (afterChunks env k c tr) = curTargets c \<and>
   writes (afterChunks env k c tr) = writes c \<and> requests (afterChunks env k c tr) = requests c \<and>
   aborted (afterChunks env k c tr) = aborted c \<and>
   (\<exists>j. control (afterChunks env k c tr) = Extracting j \<or> control (afterChunks env k c tr) = Finished
        \<or> control (afterChunks env k c tr) = Applying k)"
proof -
  obtain cache' every where m: "mergeTranslated (curPrep c) (sessionCache c) tr = (cache', every)"
    by (cases "mergeTranslated (curPrep c) (sessionCache c) tr") auto
  let ?c1 = "c\<lparr>sessionCache := cache', curMap := resultMap every\<rparr>"
  show ?thesis
  proof (cases "mode (env_settings env) = Preview")
    case True
    then have f: "afterChunks env k c tr =
        finishSlide env k ?c1 (mapSize (resultMap every)) (buildPreview (curTargets c) (resultMap every))"
      by (simp add: afterChunks_def m Let_def)
    show ?thesis
      unfolding f m
      using finishSlide_frame [of env k ?c1 "mapSize (resultMap every)"
          "buildPreview (curTargets c) (resultMap every)"]
      by auto
  next
    case False
    then have f: "afterChunks env k c tr = ?c1\<lparr>control := Applying k\<rparr>"
      by (simp add: afterChunks_def m Let_def)
    show ?thesis
      unfolding f m by simp
  qed
qed

text \<open>The payload of a chunk in flight arrives after the abort.\<close>

lemma response_after_abort:
  assumes t: "control c = Translating k" and i: "i \<in> set (inflight (pool c))" and a: "aborted c"
  shows "step env c (Response i (Items rs)) =
     (let c1 = c\<lparr>pool := (pool c)\<lparr>inflight := removeAll i (inflight (pool c)),
                                   results := results (pool c) @ rs\<rparr>,
                   requests := requests c\<rparr>
      in if removeAll i (inflight (pool c)) = []
         then afterChunks env k c1 (results (pool c) @ rs)
         else c1)"
proof -
  let ?p2 = "(pool c)\<lparr>inflight := removeAll i (inflight (pool c)), results := results (pool c) @ rs\<rparr>"
  have cl: "claimNext (env_settings env) (curChunks c) (aborted c) ?p2 = (?p2, None, None)"
    using a by (simp add: claimNext_aborted)
  show ?thesis
    using t i cl by (simp add: step_def onResponse_def translateBatchFinish_def Let_def)
qed


lemma afterExtract_prep:
  "curPrep (afterExtract env k c) = curPrep c \<or>
   (\<exists>cache items. curPrep (afterExtract env k c) = prepare cache items)"
proof -
  let ?n = "length (env_indices env)"
  let ?idx = "env_indices env ! k"
  let ?targets = "env_extract env ?idx"
  show ?thesis
  proof (cases "targetCount ?targets = 0")
    case True
    then have f: "afterExtract env k c = loopHead env (k + 1)
        (c\<lparr>progress := progress c @ [(k + 1, ?n, SlideTermineZero (?idx + 1))]\<rparr>)"
      by (simp add: afterExtract_def Let_def)
    show ?thesis
      unfolding f using loopHead_frame [of env "k + 1"] by simp
  next
    case False
    let ?c1 = "c\<lparr>progress := progress c @ [(k, ?n, TraductionSlide (?idx + 1) ?n)]\<rparr>"
    show ?thesis
    proof (cases "buildTranslateItems ?targets = []")
      case True
      with False have f: "afterExtract env k c = finishSlide env k ?c1 0 []"
        by (simp add: afterExtract_def Let_def)
      show ?thesis
        unfolding f using finishSlide_frame [of env k ?c1 0 "[]"] by simp
    next
      case items: False
      let ?prep = "prepare (sessionCache ?c1) (buildTranslateItems ?targets)"
      let ?batches = "chunkByChars (pending ?prep) defaultMaxChars defaultMaxItems"
      let ?c2 = "?c1\<lparr>curTargets := ?targets, curPrep := ?prep, curChunks := ?batches\<rparr>"
      have "curPrep (afterExtract env k c) = ?prep"
      proof (cases "?batches = []")
        case True
        with False items have f: "afterExtract env k c = afterChunks env k ?c2 []"
          by (simp add: afterExtract_def Let_def)
        show ?thesis
          unfolding f using afterChunks_frame [of env k ?c2 "[]"] by simp
      next
        case batches: False
        obtain p sent thrown where sw:
          "startWorkers (env_settings env) ?batches (aborted c)
             (min defaultConcurrency (length ?batches))
             (\<lparr> cursor = 0, inflight = [], results = [] \<rparr>, [], None) = (p, sent, thrown)"
          by (metis prod_cases3)
        let ?c3 = "?c2\<lparr>pool := p, requests := requests ?c2 @ map (\<lambda>i. ?batches ! i) sent\<rparr>"
        from False items batches sw
        have f: "afterExtract env k c =
            (case thrown of
               Some e \<Rightarrow> ?c3\<lparr>control := Rejected e\<rparr>
             | None \<Rightarrow> if inflight p = [] then afterChunks env k ?c3 (results p)
                       else ?c3\<lparr>control := Translating k\<rparr>)"
          by (cases thrown) (simp_all add: afterExtract_def Let_def)
        show ?thesis
          unfolding f using afterChunks_frame [of env k ?c3 "results p"]
          by (cases thrown) simp_all
      qed
      then show ?thesis by blast
    qed
  qed
qed

lemma onResponse_prep: "curPrep (onResponse env c i payload) = curPrep c"
proof (cases "i \<in> set (inflight (pool c))")
  case False
  then show ?thesis by (simp add: onResponse_def)
next
  case True
  let ?p1 = "(pool c)\<lparr>inflight := removeAll i (inflight (pool c))\<rparr>"
  show ?thesis
  proof (cases "translateBatchFinish payload")
    case (Inl e)
    with True show ?thesis
      by (auto simp: onResponse_def Let_def split: Control.splits)
  next
    case (Inr rs)
    obtain p2 d thrown where cl:
      "claimNext (env_settings env) (curChunks c) (aborted c) (?p1\<lparr>results := results ?p1 @ rs\<rparr>)
         = (p2, d, thrown)"
      by (metis prod_cases3)
    let ?c1 = "c\<lparr>pool := p2, requests := requests c @
        (case d of None \<Rightarrow> [] | Some j \<Rightarrow> [curChunks c ! j])\<rparr>"
    from True Inr cl have f: "onResponse env c i payload =
        (case control c of
           Translating k \<Rightarrow>
             (case thrown of
                Some e \<Rightarrow> ?c1\<lparr>control := Rejected e\<rparr>
              | None \<Rightarrow> if inflight p2 = [] then afterChunks env k ?c1 (results p2) else ?c1)
         | _ \<Rightarrow> ?c1)"
      by (cases thrown; cases "control c") (simp_all add: onResponse_def Let_def)
    show ?thesis
    proof (cases "control c")
      case (Translating k)
      show ?thesis
        unfolding f Translating using afterChunks_frame [of env k ?c1 "results p2"]
        by (cases thrown) simp_all
    qed (simp_all add: f)
  qed
qed

lemma step_prep:
  "curPrep (step env c ev) = curPrep c \<or>
   (\<exists>cache items. curPrep (step env c ev) = prepare cache items)"
proof (cases ev)
  case AbortEv
  then show ?thesis by (simp add: step_def)
next
  case HostDone
  show ?thesis
  proof (cases "control c")
    case Starting
    with HostDone show ?thesis
      using loopHead_frame [of env 0 c] by (simp add: step_def onHostDone_def)
  next
    case (Extracting k)
    with HostDone show ?thesis
      using afterExtract_prep [of env k c] by (simp add: step_def onHostDone_def)
  next
    case (Applying k)
    with HostDone show ?thesis
      using finishSlide_frame [of env k] by (simp add: step_def onHostDone_def)
  qed (simp_all add: HostDone step_def onHostDone_def)
next
  case (Response i payload)
  then show ?thesis
    by (cases "control c") (simp_all add: step_def onResponse_prep)
qed

lemma run_prepInv:
  "\<exists>cache seen. prepInv cache seen (curPrep (translateScope env es))"
proof (induction es rule: rev_induct)
  case Nil
  have "prepInv [] [] (curPrep (translateScope env []))"
    using prepInv_init [of "[]"] by (simp add: translateScope_def initialConfig_def)
  then show ?case by blast
next
  case (snoc ev es)
  have s: "translateScope env (es @ [ev]) = step env (translateScope env es) ev"
    by (simp add: translateScope_def)
  from step_prep [of env "translateScope env es" ev]
  show ?case
  proof
    assume "curPrep (step env (translateScope env es) ev) = curPrep (translateScope env es)"
    with snoc.IH show ?thesis unfolding s by simp
  next
    assume "\<exists>cache items. curPrep (step env (translateScope env es) ev) = prepare cache items"
    then obtain cache items where "curPrep (step env (translateScope env es) ev) = prepare cache items"
      by blast
    with prepare_inv [of cache items] show ?thesis unfolding s by auto
  qed
qed


text \<open>The definitions a concrete run is evaluated with.\<close>

lemmas machine_eval =
  translateScope_def step_def onHostDone_def onResponse_def afterExtract_def afterChunks_def
  finishSlide_def loopHead_def initialConfig_def targetCount_def buildTranslateItems_def
  paragraphItems_def cellItems_def indexRuns_def isSkippable_def prepare_def prepStep_def
  mergeTranslated_def mergeResult_def resultMap_def translateKey_def stringifyStrings_def
  quoteJSONString_def isHighSurrogate_def isLowSurrogate_def chunkByChars_def chunkStep_def
  defaultMaxChars_def defaultMaxItems_def defaultConcurrency_def translateBatchStart_def
  translateBatchFinish_def mapGet_def mapSet_def mapSize_def orElse_def
  applySlideTranslations_def shapeWrites_def cellWrites_def shapeKey_def updatedParagraphs_def
  twoSlideEnv_def twoSlides_def helloShape_def worldShape_def simplePara_def anySettings_def
  claimNext.simps


section \<open>Items with one fingerprint\<close>

lemma distinct_filter_eq:
  assumes "distinct (map f xs)" and "a \<in> set xs"
  shows "filter (\<lambda>x. f x = f a) xs = [a]"
  using assms
proof (induction xs)
  case Nil
  then show ?case by simp
next
  case (Cons x xs)
  show ?case
  proof (cases "x = a")
    case True
    with Cons.prems have "f a \<notin> f ` set xs" by simp
    then have "\<forall>y \<in> set xs. f y \<noteq> f a" by (metis image_eqI)
    then have "filter (\<lambda>x. f x = f a) xs = []" by (simp add: filter_empty_conv)
    with True show ?thesis by simp
  next
    case False
    with Cons.prems have a: "a \<in> set xs" and "f x \<noteq> f a" by auto
    with Cons.IH Cons.prems show ?thesis by simp
  qed
qed

lemma filter_eq_distinct:
  "distinct ids \<Longrightarrow> filter (\<lambda>i. i = a) ids = (if a \<in> set ids then [a] else [])"
  by (induction ids) auto


text \<open>The ids a key fans out to: those of the items seen with the key, when the cache lacks it.\<close>

lemma prepInv_fan_ids:
  assumes inv: "prepInv cache seen st"
  shows "orElse (mapGet (keyToIds st) k) [] =
     (if mapGet cache k = None then map paragraphId (filter (\<lambda>x. translateKey x = k) seen) else [])"
proof -
  from inv have K: "mapGet (keyToIds st) k =
      (if mapGet cache k = None \<and> (\<exists>x \<in> set seen. translateKey x = k)
       then Some (map paragraphId (filter (\<lambda>x. translateKey x = k) seen)) else None)"
    by (simp add: prepInv_def)
  show ?thesis
  proof (cases "mapGet cache k = None \<and> (\<exists>x \<in> set seen. translateKey x = k)")
    case True
    with K show ?thesis by (simp add: orElse_def)
  next
    case False
    then have "mapGet cache k \<noteq> None \<or> filter (\<lambda>x. translateKey x = k) seen = []"
      by (auto simp: filter_empty_conv)
    with K False show ?thesis by (auto simp: orElse_def)
  qed
qed

lemma prepInv_fan_member:
  assumes inv: "prepInv cache seen st" and d: "distinct (map paragraphId seen)" and a: "a \<in> set seen"
  shows "(paragraphId a \<in> set (orElse (mapGet (keyToIds st) k) [])) =
     (mapGet cache k = None \<and> translateKey a = k)"
proof -
  have "(paragraphId a \<in> paragraphId ` {x \<in> set seen. translateKey x = k}) = (translateKey a = k)"
  proof
    assume "paragraphId a \<in> paragraphId ` {x \<in> set seen. translateKey x = k}"
    then obtain x where x: "x \<in> set seen" "translateKey x = k" "paragraphId x = paragraphId a"
      by auto
    from d have "inj_on paragraphId (set seen)" by (simp add: distinct_map)
    with x(1,3) a have "x = a" by (auto dest: inj_onD)
    with x(2) show "translateKey a = k" by simp
  next
    assume "translateKey a = k"
    with a show "paragraphId a \<in> paragraphId ` {x \<in> set seen. translateKey x = k}" by auto
  qed
  then show ?thesis
    unfolding prepInv_fan_ids [OF inv] by auto
qed

lemma prepInv_fan_distinct:
  assumes inv: "prepInv cache seen st" and d: "distinct (map paragraphId seen)"
  shows "distinct (orElse (mapGet (keyToIds st) k) [])"
  unfolding prepInv_fan_ids [OF inv] using d by (simp add: distinct_map_filter)

lemma runsFor_append: "runsFor i (xs @ ys) = runsFor i xs @ runsFor i ys"
  by (simp add: runsFor_def)

lemma runsFor_concat: "runsFor i (concat xss) = concat (map (runsFor i) xss)"
  by (induction xss) (simp_all add: runsFor_append, simp add: runsFor_def)

lemma runsFor_fanOut:
  assumes inv: "prepInv cache seen st" and d: "distinct (map paragraphId seen)" and a: "a \<in> set seen"
  shows "runsFor (paragraphId a) (fanOut st r) =
     (case mapGet (idToKey st) (res_paragraphId r) of
        None \<Rightarrow> []
      | Some key \<Rightarrow>
          if key \<noteq> [] \<and> mapGet cache key = None \<and> translateKey a = key
          then [translatedRuns r] else [])"
proof (cases "mapGet (idToKey st) (res_paragraphId r)")
  case None
  then show ?thesis by (simp add: fanOut_def runsFor_def)
next
  case (Some key)
  let ?ids = "orElse (mapGet (keyToIds st) key) []"
  have f: "filter (\<lambda>x. res_paragraphId x = paragraphId a)
             (map (\<lambda>i. \<lparr> res_paragraphId = i, translatedRuns = translatedRuns r \<rparr>) ?ids)
      = map (\<lambda>i. \<lparr> res_paragraphId = i, translatedRuns = translatedRuns r \<rparr>)
          (filter (\<lambda>i. i = paragraphId a) ?ids)"
    by (simp add: filter_map comp_def)
  have g: "filter (\<lambda>i. i = paragraphId a) ?ids =
      (if mapGet cache key = None \<and> translateKey a = key then [paragraphId a] else [])"
    using filter_eq_distinct [OF prepInv_fan_distinct [OF inv d, of key], of "paragraphId a"]
      prepInv_fan_member [OF inv d a, of key]
    by simp
  show ?thesis
    using Some by (simp add: fanOut_def runsFor_def f g)
qed

lemma runsFor_allResults:
  assumes inv: "prepInv cache seen st" and d: "distinct (map paragraphId seen)" and a: "a \<in> set seen"
  shows "runsFor (paragraphId a) (allResults st) =
     (case mapGet cache (translateKey a) of None \<Rightarrow> [] | Some cached \<Rightarrow> [cached])"
proof -
  from inv have A: "allResults st =
      map (\<lambda>x. \<lparr> res_paragraphId = paragraphId x,
                 translatedRuns = the (mapGet cache (translateKey x)) \<rparr>)
          (filter (\<lambda>x. mapGet cache (translateKey x) \<noteq> None) seen)"
    by (simp add: prepInv_def)
  have "filter (\<lambda>x. paragraphId x = paragraphId a)
          (filter (\<lambda>x. mapGet cache (translateKey x) \<noteq> None) seen)
      = filter (\<lambda>x. mapGet cache (translateKey x) \<noteq> None)
          (filter (\<lambda>x. paragraphId x = paragraphId a) seen)"
    by (simp add: conj_commute)
  also have "\<dots> = filter (\<lambda>x. mapGet cache (translateKey x) \<noteq> None) [a]"
    by (simp only: distinct_filter_eq [OF d a])
  finally have f: "filter (\<lambda>x. paragraphId x = paragraphId a)
          (filter (\<lambda>x. mapGet cache (translateKey x) \<noteq> None) seen)
      = filter (\<lambda>x. mapGet cache (translateKey x) \<noteq> None) [a]" .
  have "runsFor (paragraphId a) (allResults st) =
      map (\<lambda>x. the (mapGet cache (translateKey x)))
        (filter (\<lambda>x. paragraphId x = paragraphId a)
           (filter (\<lambda>x. mapGet cache (translateKey x) \<noteq> None) seen))"
    unfolding A runsFor_def by (simp add: filter_map comp_def)
  then show ?thesis
    unfolding f by (cases "mapGet cache (translateKey a)") simp_all
qed

lemma runsFor_merge_same:
  assumes inv: "prepInv cache seen st" and d: "distinct (map paragraphId seen)"
    and a: "a \<in> set seen" and b: "b \<in> set seen" and k: "translateKey a = translateKey b"
  shows "runsFor (paragraphId a) (snd (mergeTranslated st cache' trs)) =
     runsFor (paragraphId b) (snd (mergeTranslated st cache' trs))"
proof -
  have e: "runsFor (paragraphId a) (fanOut st r) = runsFor (paragraphId b) (fanOut st r)" for r
    unfolding runsFor_fanOut [OF inv d a] runsFor_fanOut [OF inv d b] k ..
  have m: "map (runsFor (paragraphId a)) (map (fanOut st) trs) =
      map (runsFor (paragraphId b)) (map (fanOut st) trs)"
    by (induction trs) (simp_all add: e)
  have i: "runsFor (paragraphId a) (allResults st) = runsFor (paragraphId b) (allResults st)"
    unfolding runsFor_allResults [OF inv d a] runsFor_allResults [OF inv d b] k ..
  show ?thesis
    unfolding mergeTranslated_snd runsFor_append runsFor_concat m i ..
qed

lemma resultMap_runsFor:
  "map_option translatedRuns (mapGet (resultMap rs) i) =
     (if runsFor i rs = [] then None else Some (last (runsFor i rs)))"
proof (cases "\<exists>r \<in> set rs. res_paragraphId r = i")
  case True
  then have ne: "filter (\<lambda>r. res_paragraphId r = i) rs \<noteq> []"
    by (simp add: filter_empty_conv)
  then show ?thesis
    using True by (simp add: mapGet_resultMap runsFor_def last_map)
next
  case False
  then have "filter (\<lambda>r. res_paragraphId r = i) rs = []"
    by (simp add: filter_empty_conv)
  then show ?thesis
    using False by (simp add: mapGet_resultMap runsFor_def)
qed

lemma same_key_same_runs:
  assumes d: "distinct (map paragraphId items)"
    and a: "a \<in> set items" and b: "b \<in> set items" and k: "translateKey a = translateKey b"
  shows "map_option translatedRuns
       (mapGet (resultMap (snd (mergeTranslated (prepare cache items) cache' trs))) (paragraphId a))
     = map_option translatedRuns
       (mapGet (resultMap (snd (mergeTranslated (prepare cache items) cache' trs))) (paragraphId b))"
  unfolding resultMap_runsFor
    runsFor_merge_same [OF prepare_inv d a b k, where cache' = cache' and trs = trs] ..





lemma resultMap_has:
  "(mapGet (resultMap rs) i \<noteq> None) = (runsFor i rs \<noteq> [])"
  using resultMap_runsFor [of rs i] by (cases "mapGet (resultMap rs) i") (auto split: if_splits)

lemma merge_delivers:
  assumes inv: "prepInv cache seen st" and d: "distinct (map paragraphId seen)" and a: "a \<in> set seen"
    and r: "r \<in> set trs"
    and k: "mapGet (idToKey st) (res_paragraphId r) = Some (translateKey a)"
    and u: "mapGet cache (translateKey a) = None"
  shows "mapGet (resultMap (snd (mergeTranslated st cache' trs))) (paragraphId a) \<noteq> None"
proof -
  have "runsFor (paragraphId a) (fanOut st r) = [translatedRuns r]"
    unfolding runsFor_fanOut [OF inv d a] using k u translateKey_nonempty [of a] by simp
  with r have "\<exists>xs \<in> set (map (runsFor (paragraphId a)) (map (fanOut st) trs)). xs \<noteq> []"
    by force
  then have "concat (map (runsFor (paragraphId a)) (map (fanOut st) trs)) \<noteq> []"
    by simp
  then show ?thesis
    unfolding resultMap_has mergeTranslated_snd runsFor_append runsFor_concat by simp
qed

lemma cached_delivers:
  assumes inv: "prepInv cache seen st" and d: "distinct (map paragraphId seen)" and a: "a \<in> set seen"
    and c: "mapGet cache (translateKey a) \<noteq> None"
  shows "mapGet (resultMap (snd (mergeTranslated st cache' trs))) (paragraphId a) \<noteq> None"
proof -
  from c have "runsFor (paragraphId a) (allResults st) \<noteq> []"
    unfolding runsFor_allResults [OF inv d a] by auto
  then show ?thesis
    unfolding resultMap_has mergeTranslated_snd runsFor_append by simp
qed



























lemma updatedParagraphs_shape:
  "length (updatedParagraphs m ps) = length ps \<and>
   map (\<lambda>p. length (p_runs p)) (updatedParagraphs m ps) = map (\<lambda>p. length (p_runs p)) ps"
  by (simp add: updatedParagraphs_def applyRun_frame comp_def split: option.splits)


section \<open>The claims\<close>

subsection \<open>C1: the run partition is lossless\<close>

text \<open>
  C1. For every paragraph text, every host (whatever font it reports for any substring),
  every paragraph start and every rendering of numbers, the runs of
  \<open>extractRunsByCharScan\<close> and the runs of \<open>extractRunsByBinarySplit\<close> each
  concatenate, in order, to the paragraph text.
\<close>

theorem extractRuns_lossless:
  "concat (map run_text (extractRunsByCharScan numberToString host paragraphStart s)) = s \<and>
   concat (map run_text (extractRunsByBinarySplit numberToString host paragraphStart s)) = s"
  by (simp add: charScan_lossless binarySplit_lossless)

theorem extractRuns_lossless_witness:
  "concat (map run_text (extractRunsByCharScan (\<lambda>q. str ''18'') twoFontHost 7 (str ''abcd'')))
     = str ''abcd'' \<and>
   concat (map run_text (extractRunsByBinarySplit (\<lambda>q. str ''18'') twoFontHost 7 (str ''abcd'')))
     = str ''abcd''"
  by (rule extractRuns_lossless)

subsection \<open>C5: the offset tables of composeText\<close>

text \<open>
  C5. For every list of paragraphs and every settings value, \<open>composeText\<close> returns the
  paragraph texts joined by the joiner (a line feed or a space) and two tables that fit it:
  the run spans are, in order, one per run of the paragraphs, each with the run's font and
  the length of its text, and the slice of the full text at the span is the run's text; the
  paragraph spans are one per paragraph, each with the paragraph's format, and the slice at
  the span is the paragraph's text without any joiner. A run span ends at or before the
  start of every later run span, a paragraph span ends before the start of every later
  paragraph span, and the run spans of each paragraph are its runs laid end to end from the
  paragraph span's start over exactly its length.
\<close>

theorem composeText_offsets:
  "fullText (composeText ps settings) = join [joiner settings] (map paragraphText ps) \<and>
   list_all2 (\<lambda>sp r. span_font sp = run_font r \<and> span_length sp = length (run_text r) \<and>
                slice (fullText (composeText ps settings)) (int (span_start sp))
                      (int (span_start sp) + int (span_length sp)) = run_text r)
     (runSpans (composeText ps settings)) (concat (map p_runs ps)) \<and>
   list_all2 (\<lambda>sp p. pspan_format sp = paragraphFormat p \<and>
                slice (fullText (composeText ps settings)) (int (pspan_start sp))
                      (int (pspan_start sp) + int (pspan_length sp)) = paragraphText p)
     (paragraphSpans (composeText ps settings)) ps \<and>
   sorted_wrt (\<lambda>a b. span_start a + span_length a \<le> span_start b)
     (runSpans (composeText ps settings)) \<and>
   sorted_wrt (\<lambda>a b. pspan_start a + pspan_length a < pspan_start b)
     (paragraphSpans (composeText ps settings)) \<and>
   runSpans (composeText ps settings) =
     concat (map2 (\<lambda>sp p. layout (pspan_start sp) (p_runs p))
               (paragraphSpans (composeText ps settings)) ps) \<and>
   list_all2 (\<lambda>sp p. pspan_length sp = length (paragraphText p))
     (paragraphSpans (composeText ps settings)) ps"
proof -
  note c = composeText_closed [of ps settings]
  have r0: "list_all2 (\<lambda>sp r. span_font sp = run_font r \<and> span_length sp = length (run_text r) \<and>
                take (span_length sp) (drop (span_start sp) (join [joiner settings] (map paragraphText ps)))
                  = run_text r)
     (runLayout 0 ps) (concat (map p_runs ps))"
    using runLayout_slices [of "[]" "joiner settings" ps] by simp
  have r: "list_all2 (\<lambda>sp r. span_font sp = run_font r \<and> span_length sp = length (run_text r) \<and>
                slice (join [joiner settings] (map paragraphText ps)) (int (span_start sp))
                      (int (span_start sp) + int (span_length sp)) = run_text r)
     (runLayout 0 ps) (concat (map p_runs ps))"
    using r0 by (rule list_all2_mono) (auto simp: slice_take_drop)
  have p0: "list_all2 (\<lambda>sp p. pspan_format sp = paragraphFormat p \<and>
                pspan_length sp = length (paragraphText p) \<and>
                take (pspan_length sp) (drop (pspan_start sp) (join [joiner settings] (map paragraphText ps)))
                  = paragraphText p)
     (paragraphLayout 0 ps) ps"
    using paragraphLayout_slices [of "[]" "joiner settings" ps] by simp
  have p: "list_all2 (\<lambda>sp p. pspan_format sp = paragraphFormat p \<and>
                slice (join [joiner settings] (map paragraphText ps)) (int (pspan_start sp))
                      (int (pspan_start sp) + int (pspan_length sp)) = paragraphText p)
     (paragraphLayout 0 ps) ps"
    using p0 by (rule list_all2_mono) (auto simp: slice_take_drop)
  have l: "list_all2 (\<lambda>sp p. pspan_length sp = length (paragraphText p)) (paragraphLayout 0 ps) ps"
    using p0 by (rule list_all2_mono) simp
  show ?thesis
    using c r p l runLayout_sorted [of 0 ps] paragraphLayout_sorted [of 0 ps]
      runLayout_tiles [of 0 ps]
    by simp
qed


theorem composeText_offsets_witness:
  "runSpans (composeText [twoRunPara, simplePara (str ''b'') (str ''World'')] anySettings) =
     [\<lparr> span_start = 0, span_length = 6, span_font = boldFont \<rparr>,
      \<lparr> span_start = 6, span_length = 3, span_font = plainFont \<rparr>,
      \<lparr> span_start = 9, span_length = 1, span_font = plainFont \<rparr>,
      \<lparr> span_start = 11, span_length = 5, span_font = plainFont \<rparr>] \<and>
   paragraphSpans (composeText [twoRunPara, simplePara (str ''b'') (str ''World'')] anySettings) =
     [\<lparr> pspan_start = 0, pspan_length = 10, pspan_format = None \<rparr>,
      \<lparr> pspan_start = 11, pspan_length = 5, pspan_format = None \<rparr>]"
proof -
  have ps: "paragraphSpans (composeText [twoRunPara, simplePara (str ''b'') (str ''World'')] anySettings) =
     [\<lparr> pspan_start = 0, pspan_length = 10, pspan_format = None \<rparr>,
      \<lparr> pspan_start = 11, pspan_length = 5, pspan_format = None \<rparr>]"
    by (simp add: composeText_def composeParagraph_def composeRun_def twoRunPara_def
        simplePara_def anySettings_def str_def upt_rec)
  from composeText_offsets [of "[twoRunPara, simplePara (str ''b'') (str ''World'')]" anySettings]
  have "runSpans (composeText [twoRunPara, simplePara (str ''b'') (str ''World'')] anySettings) =
     concat (map2 (\<lambda>sp p. layout (pspan_start sp) (p_runs p))
               (paragraphSpans (composeText [twoRunPara, simplePara (str ''b'') (str ''World'')] anySettings))
               [twoRunPara, simplePara (str ''b'') (str ''World'')])"
    by blast
  then have "runSpans (composeText [twoRunPara, simplePara (str ''b'') (str ''World'')] anySettings) =
     [\<lparr> span_start = 0, span_length = 6, span_font = boldFont \<rparr>,
      \<lparr> span_start = 6, span_length = 3, span_font = plainFont \<rparr>,
      \<lparr> span_start = 9, span_length = 1, span_font = plainFont \<rparr>,
      \<lparr> span_start = 11, span_length = 5, span_font = plainFont \<rparr>]"
    unfolding ps by (simp add: twoRunPara_def simplePara_def str_def)
  with ps show ?thesis by simp
qed

subsection \<open>C6: the joiner between paragraphs\<close>

text \<open>
  C6. With \<open>keepLineBreaks\<close> false, \<open>composeText\<close> on the three one-run paragraphs
  "Hello", "World", "!" yields the full text "Hello World !": one space between
  consecutive paragraphs and nothing after the last. With \<open>keepLineBreaks\<close> true it
  yields "Hello", a line feed, "World", a line feed, "!". The ids, fonts, formats and the
  other settings are arbitrary.
\<close>

theorem composeText_hello_world:
  "fullText (composeText
       [\<lparr> p_id = i1, originalCharCount = 5, p_runs = [\<lparr> run_text = str ''Hello'', run_font = f1 \<rparr>],
          paragraphFormat = g1 \<rparr>,
        \<lparr> p_id = i2, originalCharCount = 5, p_runs = [\<lparr> run_text = str ''World'', run_font = f2 \<rparr>],
          paragraphFormat = g2 \<rparr>,
        \<lparr> p_id = i3, originalCharCount = 1, p_runs = [\<lparr> run_text = str ''!'', run_font = f3 \<rparr>],
          paragraphFormat = g3 \<rparr>]
       (settings\<lparr>keepLineBreaks := False\<rparr>))
     = str ''Hello World !'' \<and>
   fullText (composeText
       [\<lparr> p_id = i1, originalCharCount = 5, p_runs = [\<lparr> run_text = str ''Hello'', run_font = f1 \<rparr>],
          paragraphFormat = g1 \<rparr>,
        \<lparr> p_id = i2, originalCharCount = 5, p_runs = [\<lparr> run_text = str ''World'', run_font = f2 \<rparr>],
          paragraphFormat = g2 \<rparr>,
        \<lparr> p_id = i3, originalCharCount = 1, p_runs = [\<lparr> run_text = str ''!'', run_font = f3 \<rparr>],
          paragraphFormat = g3 \<rparr>]
       (settings\<lparr>keepLineBreaks := True\<rparr>))
     = str ''Hello'' @ [0x0A] @ str ''World'' @ [0x0A] @ str ''!''"
  by (simp add: composeText_def composeParagraph_def composeRun_def str_def upt_rec)

theorem composeText_hello_world_witness:
  "fullText (composeText
       [simplePara (str ''a'') (str ''Hello''), simplePara (str ''b'') (str ''World''),
        simplePara (str ''c'') (str ''!'')]
       (anySettings\<lparr>keepLineBreaks := False\<rparr>))
     = str ''Hello World !''"
  using composeText_hello_world [of "str ''a''" plainFont None "str ''b''" plainFont None
      "str ''c''" plainFont None anySettings]
  by (simp add: simplePara_def str_def)

subsection \<open>C7: applyRunTranslations, run by run\<close>

text \<open>
  C7. \<open>applyRunTranslations\<close> keeps the paragraph's id, \<open>originalCharCount\<close> and
  \<open>paragraphFormat\<close>, the number of runs and every run's font. Run \<open>i\<close> gets the text
  \<open>preserveWhitespace original translated\<close> exactly when its text is translatable and
  \<open>translatedRuns\<close> has an entry with index \<open>i\<close>; \<open>translated\<close> is then the text of
  the last such entry. Every other run keeps its text.
\<close>

theorem applyRunTranslations_by_index:
  "p_id (applyRunTranslations p trs) = p_id p \<and>
   originalCharCount (applyRunTranslations p trs) = originalCharCount p \<and>
   paragraphFormat (applyRunTranslations p trs) = paragraphFormat p \<and>
   length (p_runs (applyRunTranslations p trs)) = length (p_runs p) \<and>
   (\<forall>i < length (p_runs p).
      run_font (p_runs (applyRunTranslations p trs) ! i) = run_font (p_runs p ! i) \<and>
      run_text (p_runs (applyRunTranslations p trs) ! i) =
        (if \<not> isNonTranslatable (run_text (p_runs p ! i)) \<and> (\<exists>tr \<in> set trs. r_index tr = int i)
         then preserveWhitespace (run_text (p_runs p ! i))
                (r_text (last (filter (\<lambda>tr. r_index tr = int i) trs)))
         else run_text (p_runs p ! i)))"
  using applyRun_frame [of p trs] by (simp add: applyRun_nth Let_def)

theorem applyRunTranslations_by_index_witness:
  "p_id (applyRunTranslations twoRunPara frenchRuns) = str ''s0_shape2_p0'' \<and>
   length (p_runs (applyRunTranslations twoRunPara frenchRuns)) = 3 \<and>
   run_text (p_runs (applyRunTranslations twoRunPara frenchRuns) ! 0) = str ''Salut '' \<and>
   run_font (p_runs (applyRunTranslations twoRunPara frenchRuns) ! 0) = boldFont \<and>
   run_text (p_runs (applyRunTranslations twoRunPara frenchRuns) ! 1) = str ''42%'' \<and>
   run_text (p_runs (applyRunTranslations twoRunPara frenchRuns) ! 2) = str '' ''"
proof -
  have len: "length (p_runs twoRunPara) = 3"
    by (simp add: twoRunPara_def)
  note inst = applyRunTranslations_by_index [of twoRunPara frenchRuns]
  from inst have all: "\<forall>i < 3.
      run_font (p_runs (applyRunTranslations twoRunPara frenchRuns) ! i) = run_font (p_runs twoRunPara ! i) \<and>
      run_text (p_runs (applyRunTranslations twoRunPara frenchRuns) ! i) =
        (if \<not> isNonTranslatable (run_text (p_runs twoRunPara ! i)) \<and> (\<exists>tr \<in> set frenchRuns. r_index tr = int i)
         then preserveWhitespace (run_text (p_runs twoRunPara ! i))
                (r_text (last (filter (\<lambda>tr. r_index tr = int i) frenchRuns)))
         else run_text (p_runs twoRunPara ! i))"
    unfolding len by blast
  from all have r0: "run_text (p_runs (applyRunTranslations twoRunPara frenchRuns) ! 0) = str ''Salut ''"
    "run_font (p_runs (applyRunTranslations twoRunPara frenchRuns) ! 0) = boldFont"
    by (simp_all add: twoRunPara_def frenchRuns_def text_eval)
  from all have r1: "run_text (p_runs (applyRunTranslations twoRunPara frenchRuns) ! 1) = str ''42%''"
    by (simp add: twoRunPara_def frenchRuns_def text_eval)
  from all have r2: "run_text (p_runs (applyRunTranslations twoRunPara frenchRuns) ! 2) = str '' ''"
    by (simp add: twoRunPara_def frenchRuns_def text_eval)
  from inst have fr: "p_id (applyRunTranslations twoRunPara frenchRuns) = str ''s0_shape2_p0''"
    "length (p_runs (applyRunTranslations twoRunPara frenchRuns)) = 3"
    by (simp_all add: twoRunPara_def)
  from fr r0 r1 r2 show ?thesis by simp
qed

subsection \<open>C8: chunkByChars\<close>

text \<open>
  C8, as the code has it. With the default bounds, the chunks of \<open>chunkByChars\<close>
  concatenate to the item list (order kept, nothing split or dropped), no chunk is empty,
  every chunk has at most 60 items, and every chunk of two or more items totals at most
  12000 \<open>originalChars\<close>. A chunk of one item may exceed 12000: an item is never split.
\<close>

theorem chunkByChars_default_partition:
  "concat (chunkByChars items defaultMaxChars defaultMaxItems) = items \<and>
   list_all (\<lambda>c. c \<noteq> [] \<and> length c \<le> 60 \<and>
                (length c = 1 \<or> sum_list (map originalChars c) \<le> 12000))
     (chunkByChars items defaultMaxChars defaultMaxItems)"
  using chunkByChars_general [of defaultMaxItems items defaultMaxChars]
  by (simp add: defaultMaxItems_def defaultMaxChars_def chunkOk_def list_all_iff)

text \<open>
  The claim as stated (every chunk totals at most 12000) fails on one item of 12001
  characters: it is a chunk of its own.
\<close>

theorem chunkByChars_oversize_counterexample:
  "chunkByChars [bigItem] defaultMaxChars defaultMaxItems = [[bigItem]] \<and>
   sum_list (map originalChars [bigItem]) = 12001"
  by (simp add: chunkByChars_def chunkStep_def bigItem_def defaultMaxChars_def defaultMaxItems_def)

theorem chunkByChars_default_partition_witness:
  "concat (chunkByChars [bigItem, bigItem] defaultMaxChars defaultMaxItems) = [bigItem, bigItem] \<and>
   list_all (\<lambda>c. c \<noteq> [] \<and> length c \<le> 60 \<and>
                (length c = 1 \<or> sum_list (map originalChars c) \<le> 12000))
     (chunkByChars [bigItem, bigItem] defaultMaxChars defaultMaxItems)"
  by (rule chunkByChars_default_partition)

subsection \<open>C10: preserveWhitespace\<close>

text \<open>
  C10. \<open>preserveWhitespace original translated\<close> is the longest white-space prefix of
  \<open>original\<close>, then \<open>trim translated\<close>, then the longest white-space suffix of
  \<open>original\<close>. On a non-empty \<open>original\<close> that is all white space both are the whole
  of \<open>original\<close>, which then stands twice in the result. \<open>applyRunTranslations\<close> never
  reaches that case: a text that is all white space is non-translatable, and each run of the
  result either is the run it was, or has a text that is not all white space and gets
  \<open>preserveWhitespace\<close> of it.
\<close>

theorem preserveWhitespace_shape:
  "preserveWhitespace original translated =
     takeWhile isWhiteSpace original @ trim translated @ rev (takeWhile isWhiteSpace (rev original)) \<and>
   (original \<noteq> [] \<and> list_all isWhiteSpace original \<longrightarrow>
      preserveWhitespace original translated = original @ trim translated @ original) \<and>
   (list_all isWhiteSpace original \<longrightarrow> isNonTranslatable original) \<and>
   (\<forall>i < length (p_runs p).
      p_runs (applyRunTranslations p trs) ! i = p_runs p ! i \<or>
      (\<not> list_all isWhiteSpace (run_text (p_runs p ! i)) \<and>
       (\<exists>t. p_runs (applyRunTranslations p trs) ! i =
              (p_runs p ! i)\<lparr>run_text := preserveWhitespace (run_text (p_runs p ! i)) t\<rparr>)))"
proof -
  have shape: "preserveWhitespace original translated =
      takeWhile isWhiteSpace original @ trim translated @ rev (takeWhile isWhiteSpace (rev original))"
    by (rule preserveWhitespace_eq)
  have twice: "preserveWhitespace original translated = original @ trim translated @ original"
    if "list_all isWhiteSpace original"
  proof -
    from that have a: "\<forall>x \<in> set original. isWhiteSpace x"
      by (simp add: list_all_iff)
    then have b: "\<forall>x \<in> set (rev original). isWhiteSpace x"
      by simp
    have "takeWhile isWhiteSpace original = original"
      using a by (rule takeWhile_eq_all_conv [THEN iffD2])
    moreover have "takeWhile isWhiteSpace (rev original) = rev original"
      using b by (rule takeWhile_eq_all_conv [THEN iffD2])
    ultimately show ?thesis
      unfolding shape by (simp only: rev_rev_ident)
  qed
  have runs: "p_runs (applyRunTranslations p trs) ! i = p_runs p ! i \<or>
      (\<not> list_all isWhiteSpace (run_text (p_runs p ! i)) \<and>
       (\<exists>t. p_runs (applyRunTranslations p trs) ! i =
              (p_runs p ! i)\<lparr>run_text := preserveWhitespace (run_text (p_runs p ! i)) t\<rparr>))"
    if "i < length (p_runs p)" for i
    using applyRun_nth [OF that, of trs] allWs_nonTranslatable [of "run_text (p_runs p ! i)"]
    by (auto simp: Let_def)
  show ?thesis
    using shape twice runs allWs_nonTranslatable by blast
qed

theorem preserveWhitespace_shape_witness:
  "preserveWhitespace (str ''  '') (str '' ok '') = str ''  ok  '' \<and>
   isNonTranslatable (str ''  '') \<and>
   p_runs (applyRunTranslations twoRunPara [\<lparr> r_index = 2, r_text = str ''x'' \<rparr>]) ! 2 = p_runs twoRunPara ! 2 \<and>
   preserveWhitespace (str '' a b  '') (str ''c '') = str '' c  ''"
proof -
  note inst = preserveWhitespace_shape [of "str ''  ''" "str '' ok ''" twoRunPara "[\<lparr> r_index = 2, r_text = str ''x'' \<rparr>]"]
  have ws: "str ''  '' \<noteq> [] \<and> list_all isWhiteSpace (str ''  '')"
    by (simp add: str_def isWhiteSpace_def)
  from inst ws have a: "preserveWhitespace (str ''  '') (str '' ok '') = str ''  '' @ trim (str '' ok '') @ str ''  ''"
    by blast
  have t: "trim (str '' ok '') = str ''ok''"
    by (simp add: text_eval)
  from inst ws have b: "isNonTranslatable (str ''  '')"
    by blast
  have i2: "2 < length (p_runs twoRunPara)"
    by (simp add: twoRunPara_def)
  have notall: "list_all isWhiteSpace (run_text (p_runs twoRunPara ! 2))"
    by (simp add: twoRunPara_def str_def isWhiteSpace_def)
  from inst i2 notall
  have c: "p_runs (applyRunTranslations twoRunPara [\<lparr> r_index = 2, r_text = str ''x'' \<rparr>]) ! 2 = p_runs twoRunPara ! 2"
    by blast
  have d: "preserveWhitespace (str '' a b  '') (str ''c '') = str '' c  ''"
    using preserveWhitespace_shape [of "str '' a b  ''" "str ''c ''" twoRunPara "[]"]
    by (simp add: text_eval)
  from a t b c d show ?thesis by (simp add: str_def)
qed


subsection \<open>C3: a chunk whose payload is not usable\<close>

text \<open>
  C3, as the code has it. A payload that \<open>JSON.parse\<close> rejects, or that has no
  \<open>items\<close> array, makes \<open>translateBatch\<close> throw. When that happens to a chunk in
  flight, \<open>translateScope\<close> throws the error to its caller at once, and whatever reaches
  the run afterwards, it stays thrown: nothing is written to the host for the slide in
  progress (so the items of its other chunks stay untranslated as well), no further slide
  is extracted, no further progress is reported, and the count of translated paragraphs and
  the session cache stay as they were. What was written for earlier slides stays written.
\<close>

theorem failed_chunk_fails_scope:
  "translateBatchFinish NotJSON = Inl UnparsableOutput \<and>
   translateBatchFinish NoItemsArray = Inl UnexpectedOutput \<and>
   (control (translateScope env es) = Translating k \<and>
    i \<in> set (inflight (pool (translateScope env es))) \<and>
    translateBatchFinish payload = Inl e \<longrightarrow>
      control (translateScope env (es @ Response i payload # es')) = Rejected e \<and>
      writes (translateScope env (es @ Response i payload # es')) = writes (translateScope env es) \<and>
      extracted (translateScope env (es @ Response i payload # es')) = extracted (translateScope env es) \<and>
      progress (translateScope env (es @ Response i payload # es')) = progress (translateScope env es) \<and>
      translatedTotal (translateScope env (es @ Response i payload # es'))
        = translatedTotal (translateScope env es) \<and>
      sessionCache (translateScope env (es @ Response i payload # es'))
        = sessionCache (translateScope env es))"
  using failure_stops_run [of env es k i payload e es']
  by (simp add: translateBatchFinish_def)

text \<open>
  The claim as stated (the other chunks and the remaining slides are still processed) fails
  on a deck of two slides when the payload for the chunk of the first slide is not JSON: the
  run has thrown, the second slide was never extracted, its chunk never sent, and nothing
  was written, although the payload for it and every host completion were on offer.
\<close>

theorem failed_chunk_counterexample:
  "env_indices twoSlideEnv = [0, 1] \<and>
   control (translateScope twoSlideEnv
      [HostDone, HostDone, Response 0 NotJSON, HostDone, HostDone, Response 0 (Items monde), HostDone])
     = Rejected UnparsableOutput \<and>
   extracted (translateScope twoSlideEnv
      [HostDone, HostDone, Response 0 NotJSON, HostDone, HostDone, Response 0 (Items monde), HostDone])
     = [0] \<and>
   requests (translateScope twoSlideEnv
      [HostDone, HostDone, Response 0 NotJSON, HostDone, HostDone, Response 0 (Items monde), HostDone])
     = [buildTranslateItems (twoSlides 0)] \<and>
   writes (translateScope twoSlideEnv
      [HostDone, HostDone, Response 0 NotJSON, HostDone, HostDone, Response 0 (Items monde), HostDone])
     = []"
  by (simp add: machine_eval text_eval Let_def)

theorem failed_chunk_fails_scope_witness:
  "control (translateScope twoSlideEnv [HostDone, HostDone, Response 0 NoItemsArray, HostDone])
     = Rejected UnexpectedOutput \<and>
   writes (translateScope twoSlideEnv [HostDone, HostDone, Response 0 NoItemsArray, HostDone]) = [] \<and>
   extracted (translateScope twoSlideEnv [HostDone, HostDone, Response 0 NoItemsArray, HostDone]) = [0]"
proof -
  have st: "control (translateScope twoSlideEnv [HostDone, HostDone]) = Translating 0 \<and>
     inflight (pool (translateScope twoSlideEnv [HostDone, HostDone])) = [0] \<and>
     writes (translateScope twoSlideEnv [HostDone, HostDone]) = [] \<and>
     extracted (translateScope twoSlideEnv [HostDone, HostDone]) = [0]"
    by (simp add: machine_eval text_eval Let_def)
  from failed_chunk_fails_scope [of twoSlideEnv "[HostDone, HostDone]" 0 0 NoItemsArray
      UnexpectedOutput "[HostDone]"] st
  show ?thesis by simp
qed

subsection \<open>C9: cancellation\<close>

text \<open>
  C9. From the abort on, whatever else reaches the run, no chunk is sent to the provider and
  no extraction is started that was not before. If the run had not returned at the abort and
  returns afterwards, its last progress report is the cancelled one ("Annule"). A chunk in
  flight at the abort is still completed: when its payload arrives its results are pushed
  and no new chunk is claimed; when it was the last chunk in flight, \<open>translateChunks\<close>
  returns, and the final map of the slide is built from all the results pushed, so that it
  has an entry for every result whose paragraph id the slide asked for.
\<close>

theorem abort_stops_new_work:
  "requests (translateScope env (es @ AbortEv # es')) = requests (translateScope env es) \<and>
   extracted (translateScope env (es @ AbortEv # es')) = extracted (translateScope env es) \<and>
   (control (translateScope env es) \<noteq> Finished \<and>
    control (translateScope env (es @ AbortEv # es')) = Finished \<longrightarrow>
      last (progress (translateScope env (es @ AbortEv # es')))
        = (length (env_indices env), length (env_indices env), Annule)) \<and>
   (control (translateScope env es) = Translating k \<and> aborted (translateScope env es) \<and>
    i \<in> set (inflight (pool (translateScope env es))) \<longrightarrow>
      (if removeAll i (inflight (pool (translateScope env es))) = []
       then curMap (translateScope env (es @ [Response i (Items rs)])) =
              resultMap (snd (mergeTranslated (curPrep (translateScope env es))
                                (sessionCache (translateScope env es))
                                (results (pool (translateScope env es)) @ rs))) \<and>
            (\<forall>r \<in> set (results (pool (translateScope env es)) @ rs).
               mapGet (idToKey (curPrep (translateScope env es))) (res_paragraphId r) \<noteq> None \<longrightarrow>
               mapGet (curMap (translateScope env (es @ [Response i (Items rs)]))) (res_paragraphId r)
                 \<noteq> None)
       else control (translateScope env (es @ [Response i (Items rs)])) = Translating k \<and>
            results (pool (translateScope env (es @ [Response i (Items rs)]))) =
              results (pool (translateScope env es)) @ rs \<and>
            inflight (pool (translateScope env (es @ [Response i (Items rs)]))) =
              removeAll i (inflight (pool (translateScope env es)))))"
proof -
  let ?c = "translateScope env es"
  let ?c' = "translateScope env (es @ [Response i (Items rs)])"
  have s: "?c' = step env ?c (Response i (Items rs))"
    by (simp add: translateScope_def)
  have flight: "(if removeAll i (inflight (pool ?c)) = []
       then curMap ?c' = resultMap (snd (mergeTranslated (curPrep ?c) (sessionCache ?c)
                                          (results (pool ?c) @ rs))) \<and>
            (\<forall>r \<in> set (results (pool ?c) @ rs).
               mapGet (idToKey (curPrep ?c)) (res_paragraphId r) \<noteq> None \<longrightarrow>
               mapGet (curMap ?c') (res_paragraphId r) \<noteq> None)
       else control ?c' = Translating k \<and> results (pool ?c') = results (pool ?c) @ rs \<and>
            inflight (pool ?c') = removeAll i (inflight (pool ?c)))"
    if t: "control ?c = Translating k" and a: "aborted ?c" and i: "i \<in> set (inflight (pool ?c))"
  proof (cases "removeAll i (inflight (pool ?c)) = []")
    case True
    let ?c1 = "?c\<lparr>pool := (pool ?c)\<lparr>inflight := removeAll i (inflight (pool ?c)),
                                       results := results (pool ?c) @ rs\<rparr>,
                     requests := requests ?c\<rparr>"
    from response_after_abort [OF t i a, of env rs] True
    have e: "?c' = afterChunks env k ?c1 (results (pool ?c) @ rs)"
      unfolding s by (simp add: Let_def)
    from afterChunks_frame [of env k ?c1 "results (pool ?c) @ rs"]
    have m: "curMap ?c' = resultMap (snd (mergeTranslated (curPrep ?c) (sessionCache ?c)
                                          (results (pool ?c) @ rs)))"
      unfolding e by simp
    obtain cache seen where inv: "prepInv cache seen (curPrep ?c)"
      using run_prepInv [of env es] by blast
    have "mapGet (curMap ?c') (res_paragraphId r) \<noteq> None"
      if "r \<in> set (results (pool ?c) @ rs)"
        and "mapGet (idToKey (curPrep ?c)) (res_paragraphId r) \<noteq> None" for r
      unfolding m using inv that by (rule merge_records)
    with m True show ?thesis by simp
  next
    case False
    from response_after_abort [OF t i a, of env rs] False
    have "?c' = ?c\<lparr>pool := (pool ?c)\<lparr>inflight := removeAll i (inflight (pool ?c)),
                                       results := results (pool ?c) @ rs\<rparr>,
                     requests := requests ?c\<rparr>"
      unfolding s by (simp add: Let_def)
    with False t show ?thesis by simp
  qed
  show ?thesis
    using abort_stops_dispatch [of env es es'] abort_final_label [of env es es'] flight
    by blast
qed


theorem abort_stops_new_work_witness:
  "mapGet (curMap (translateScope twoSlideEnv [HostDone, HostDone, AbortEv, Response 0 (Items bonjour)]))
     (str ''s0_shape2_p0'') \<noteq> None \<and>
   extracted (translateScope twoSlideEnv
      [HostDone, HostDone, AbortEv, Response 0 (Items bonjour), HostDone]) = [0] \<and>
   last (progress (translateScope twoSlideEnv
      [HostDone, HostDone, AbortEv, Response 0 (Items bonjour), HostDone])) = (2, 2, Annule)"
proof -
  let ?es = "[HostDone, HostDone, AbortEv]"
  have st: "control (translateScope twoSlideEnv ?es) = Translating 0 \<and>
     aborted (translateScope twoSlideEnv ?es) \<and>
     inflight (pool (translateScope twoSlideEnv ?es)) = [0] \<and>
     results (pool (translateScope twoSlideEnv ?es)) = [] \<and>
     mapGet (idToKey (curPrep (translateScope twoSlideEnv ?es))) (str ''s0_shape2_p0'') \<noteq> None"
    by (simp add: machine_eval text_eval Let_def)
  from abort_stops_new_work [of twoSlideEnv ?es "[]" 0 0 bonjour] st
  have "\<forall>r \<in> set bonjour.
      mapGet (idToKey (curPrep (translateScope twoSlideEnv ?es))) (res_paragraphId r) \<noteq> None \<longrightarrow>
      mapGet (curMap (translateScope twoSlideEnv (?es @ [Response 0 (Items bonjour)])))
        (res_paragraphId r) \<noteq> None"
    by (auto simp del: not_None_eq)
  with st have a: "mapGet (curMap (translateScope twoSlideEnv
      [HostDone, HostDone, AbortEv, Response 0 (Items bonjour)])) (str ''s0_shape2_p0'') \<noteq> None"
    by (simp add: bonjour_def del: not_None_eq)
  have before: "control (translateScope twoSlideEnv [HostDone, HostDone]) \<noteq> Finished \<and>
     extracted (translateScope twoSlideEnv [HostDone, HostDone]) = [0]"
    by (simp add: machine_eval text_eval Let_def)
  have after: "control (translateScope twoSlideEnv
      ([HostDone, HostDone] @ AbortEv # [Response 0 (Items bonjour), HostDone])) = Finished"
    by (simp add: machine_eval text_eval Let_def bonjour_def)
  from abort_stops_new_work [of twoSlideEnv "[HostDone, HostDone]" "[Response 0 (Items bonjour), HostDone]"]
    before after
  have b: "extracted (translateScope twoSlideEnv
      ([HostDone, HostDone] @ AbortEv # [Response 0 (Items bonjour), HostDone])) = [0] \<and>
    last (progress (translateScope twoSlideEnv
      ([HostDone, HostDone] @ AbortEv # [Response 0 (Items bonjour), HostDone]))) = (2, 2, Annule)"
    by (simp add: twoSlideEnv_def)
  from a b show ?thesis by simp
qed


subsection \<open>C4: one request per fingerprint\<close>




subsection \<open>C2: non-translatable runs\<close>






end
